theory Spec2Isabelle
  imports
    Main
    "HOL-Library.Multiset"
    "HOL-Library.List_Lexorder"
    "HOL-Library.Char_ord"
begin

section \<open>Data model (types.go)\<close>

text \<open>
  Go strings are byte sequences and \<open><\<close> on them compares bytes lexicographically;
  \<^typ>\<open>string\<close> with the orders of \<open>Char_ord\<close> and \<open>List_Lexorder\<close> is the same order.
  A Go slice can be \<open>nil\<close> or allocated (possibly empty); the validator tells the two apart,
  so \<open>Topics\<close> is an option: \<open>None\<close> is the nil slice. \<open>*string\<close> is an option as well.
\<close>

record StandardsHeader =
  Title :: string
  Description :: string
  Scope :: string
  Topics :: "string list option"
  Parent :: "string option"

record StandardsFile =
  Path :: string
  Header :: StandardsHeader

type_synonym addr = nat

text \<open>
  \<open>*Node\<close> pointers are addresses into a heap of nodes; \<open>Children\<close> holds pointers, as in
  the source, so that a node reached twice is the same node.
\<close>

record Node =
  Path :: string
  Title :: string
  Description :: string
  Scope :: string
  Topics :: "string list option"
  Parent :: "string option"
  Children :: "addr list"

type_synonym heap = "Node list"

record StandardsTree =
  Nodes :: "addr list"

datatype error = IOError string | FrontMatterError string

section \<open>Header extraction (tree.go, ExtractMDHeader)\<close>

text \<open>
  The struct tags of \<open>StandardsHeader\<close>: \<open>validate:"required"\<close> on Title, Description, Scope
  and Topics, \<open>validate:"omitempty"\<close> on Parent. The validator's \<open>required\<close> rejects the
  empty string, and for a slice rejects only \<open>nil\<close>.
\<close>

definition required_string :: "string \<Rightarrow> bool" where
  "required_string s \<longleftrightarrow> s \<noteq> []"

definition required_slice :: "'a list option \<Rightarrow> bool" where
  "required_slice xs \<longleftrightarrow> xs \<noteq> None"

definition validate_Struct :: "StandardsHeader \<Rightarrow> bool" where
  "validate_Struct h \<longleftrightarrow>
     required_string (StandardsHeader.Title h) \<and>
     required_string (StandardsHeader.Description h) \<and>
     required_string (StandardsHeader.Scope h) \<and>
     required_slice (StandardsHeader.Topics h)"

text \<open>
  \<open>os.ReadFile\<close> and \<open>frontmatter.Parse\<close> are the environment: \<open>readFile\<close> maps a path
  to its content or an error, \<open>parseFM\<close> maps a content to the header decoded from its front
  matter (the zero header when the document has none) or to the decoding error.
  The result is \<open>Inl err\<close> for \<open>(nil, err)\<close>, \<open>Inr None\<close> for \<open>(nil, nil)\<close> and
  \<open>Inr (Some h)\<close> for \<open>(&header, nil)\<close>.
\<close>

definition ExtractMDHeader ::
  "(string \<Rightarrow> error + string) \<Rightarrow> (string \<Rightarrow> error + StandardsHeader) \<Rightarrow> string
     \<Rightarrow> error + StandardsHeader option" where
  "ExtractMDHeader readFile parseFM path =
     (case readFile path of
        Inl err \<Rightarrow> Inl err
      | Inr content \<Rightarrow>
          (case parseFM content of
             Inl err \<Rightarrow> Inl err
           | Inr header \<Rightarrow>
               if \<not> validate_Struct header then Inr None else Inr (Some header)))"

definition zeroHeader :: StandardsHeader where
  "zeroHeader = \<lparr>StandardsHeader.Title = [], Description = [], Scope = [],
                  Topics = None, Parent = None\<rparr>"

section \<open>Paths (path.Join and path.Clean of the Go library)\<close>

text \<open>
  \<open>path.Clean\<close> works on the slash-separated elements of a path: empty elements and
  \<open>.\<close> are dropped, \<open>..\<close> removes the element before it when there is one that is
  not \<open>..\<close> itself, is kept at the start of a relative path and dropped at the start
  of a rooted one. The empty result is \<open>.\<close>.
\<close>

fun split_slash :: "string \<Rightarrow> string list" where
  "split_slash [] = [[]]"
| "split_slash (c # cs) =
     (if c = CHR ''/'' then [] # split_slash cs
      else (case split_slash cs of
              [] \<Rightarrow> [[c]]
            | w # ws \<Rightarrow> (c # w) # ws))"

fun join_slash :: "string list \<Rightarrow> string" where
  "join_slash [] = []"
| "join_slash [e] = e"
| "join_slash (e # es) = e @ ''/'' @ join_slash es"

text \<open>The second argument is the output so far, last element first.\<close>

fun clean_elems :: "bool \<Rightarrow> string list \<Rightarrow> string list \<Rightarrow> string list" where
  "clean_elems rooted out [] = rev out"
| "clean_elems rooted out (e # es) =
     (if e = [] \<or> e = ''.'' then clean_elems rooted out es
      else if e = ''..'' then
        (case out of
           [] \<Rightarrow> if rooted then clean_elems rooted out es
                 else clean_elems rooted [''..''] es
         | prev # below \<Rightarrow>
             if prev = ''..'' then clean_elems rooted (''..'' # out) es
             else clean_elems rooted below es)
      else clean_elems rooted (e # out) es)"

definition path_Clean :: "string \<Rightarrow> string" where
  "path_Clean path =
     (if path = [] then ''.''
      else
        let rooted = (hd path = CHR ''/'');
            out = (if rooted then ''/'' else []) @ join_slash (clean_elems rooted [] (split_slash path))
        in if out = [] then ''.'' else out)"

text \<open>One step of the loop of \<open>path.Join\<close> that fills its buffer.\<close>

definition join_step :: "string \<Rightarrow> string \<Rightarrow> string" where
  "join_step buf e =
     (if buf \<noteq> [] \<or> e \<noteq> [] then (if buf \<noteq> [] then buf @ ''/'' else buf) @ e else buf)"

definition path_Join :: "string list \<Rightarrow> string" where
  "path_Join elem =
     (if sum_list (map length elem) = 0 then []
      else path_Clean (foldl join_step [] elem))"

definition HasSuffix :: "string \<Rightarrow> string \<Rightarrow> bool" where
  "HasSuffix s suffix \<longleftrightarrow>
     length s \<ge> length suffix \<and> drop (length s - length suffix) s = suffix"

section \<open>Document collection (tree.go, ParseMDDocuments)\<close>

text \<open>
  \<open>filepath.WalkDir\<close> calls its function once per entry it visits, with the entry's path,
  its directory entry and the error of reading it, and stops at the first error the
  function returns. The traversal of the file system is the environment: the model takes
  the sequence of visits.
\<close>

record DirEntry =
  Name :: string
  IsDir :: bool

type_synonym visit = "string \<times> DirEntry \<times> error option"

fun WalkDir :: "(visit \<Rightarrow> 's \<Rightarrow> 's \<times> error option) \<Rightarrow> visit list \<Rightarrow> 's \<Rightarrow> 's \<times> error option" where
  "WalkDir fn [] s = (s, None)"
| "WalkDir fn (v # vs) s =
     (case fn v s of
        (s', Some err) \<Rightarrow> (s', Some err)
      | (s', None) \<Rightarrow> WalkDir fn vs s')"

text \<open>The function literal passed to WalkDir; the state is the slice \<open>headers\<close>.\<close>

fun walkFn ::
  "(string \<Rightarrow> error + string) \<Rightarrow> (string \<Rightarrow> error + StandardsHeader) \<Rightarrow> visit
     \<Rightarrow> StandardsFile list \<Rightarrow> StandardsFile list \<times> error option" where
  "walkFn readFile parseFM (path, d, err) headers =
     (case err of
        Some e \<Rightarrow> (headers, Some e)
      | None \<Rightarrow>
          if IsDir d then (headers, None)
          else if \<not> HasSuffix (Name d) ''.md'' then (headers, None)
          else
            (case ExtractMDHeader readFile parseFM path of
               Inl e \<Rightarrow> (headers, Some e)
             | Inr (Some header) \<Rightarrow>
                 (headers @ [\<lparr>StandardsFile.Path = path, Header = header\<rparr>], None)
             | Inr None \<Rightarrow> (headers, None)))"

text \<open>The body of the loop that rewrites the parents after the walk.\<close>

definition augmentParent :: "string \<Rightarrow> StandardsFile \<Rightarrow> StandardsFile" where
  "augmentParent root file =
     (case StandardsHeader.Parent (Header file) of
        None \<Rightarrow> file
      | Some parent \<Rightarrow>
          file\<lparr>Header := (Header file)\<lparr>StandardsHeader.Parent := Some (path_Join [root, parent])\<rparr>\<rparr>)"

definition ParseMDDocuments ::
  "(string \<Rightarrow> error + string) \<Rightarrow> (string \<Rightarrow> error + StandardsHeader) \<Rightarrow> visit list
     \<Rightarrow> string \<Rightarrow> StandardsFile list \<times> error option" where
  "ParseMDDocuments readFile parseFM visits root =
     (case WalkDir (walkFn readFile parseFM) visits [] of
        (headers, err) \<Rightarrow> (map (augmentParent root) headers, err))"

section \<open>Sorting (sort.Slice of the Go library)\<close>

text \<open>
  \<open>sort.Slice\<close> sorts a slice in place by a \<open>less\<close> function and promises no stability.
  Its \<open>less\<close> takes two positions of the slice and the source compares the elements
  found there; the model gives the comparison on the elements (the pointers).
  BuildHierarchy is modelled over any sorting function \<open>srt\<close>; what the library promises
  for the comparisons used here (a key of one element is less than the key of the other)
  is \<open>sort_Slice_spec\<close>: the result is a rearrangement of the input, ascending in the key.
\<close>

type_synonym sorter = "(addr \<Rightarrow> addr \<Rightarrow> bool) \<Rightarrow> addr list \<Rightarrow> addr list"

definition sort_Slice_spec :: "sorter \<Rightarrow> bool" where
  "sort_Slice_spec srt \<longleftrightarrow>
     (\<forall>(key :: addr \<Rightarrow> string) xs.
        mset (srt (\<lambda>a b. key a < key b) xs) = mset xs \<and>
        sorted (map key (srt (\<lambda>a b. key a < key b) xs)))"

text \<open>
  What the library runs on a slice of at most 12 elements is \<open>insertionSortLessFunc\<close>:
  each element in turn is swapped leftwards while it is less than its left neighbour.
  \<open>insert_left\<close> takes the sorted prefix with its last element first.
\<close>

fun insert_left :: "('a \<Rightarrow> 'a \<Rightarrow> bool) \<Rightarrow> 'a \<Rightarrow> 'a list \<Rightarrow> 'a list" where
  "insert_left lt x [] = [x]"
| "insert_left lt x (y # ys) = (if lt x y then y # insert_left lt x ys else x # y # ys)"

definition insertionSortLessFunc :: "('a \<Rightarrow> 'a \<Rightarrow> bool) \<Rightarrow> 'a list \<Rightarrow> 'a list" where
  "insertionSortLessFunc lt xs = rev (foldl (\<lambda>pre x. insert_left lt x pre) [] xs)"

section \<open>Hierarchy construction (tree.go, BuildHierarchy and sortChildren)\<close>

text \<open>The node literal of the first loop.\<close>

definition newNode :: "StandardsFile \<Rightarrow> Node" where
  "newNode file =
     \<lparr>Node.Path = StandardsFile.Path file,
      Title = StandardsHeader.Title (Header file),
      Description = StandardsHeader.Description (Header file),
      Scope = StandardsHeader.Scope (Header file),
      Topics = StandardsHeader.Topics (Header file),
      Parent = StandardsHeader.Parent (Header file),
      Children = []\<rparr>"

text \<open>
  First loop: every record allocates a node (at the next free address) and stores its
  pointer in the map \<open>nodes\<close> under the record's path, replacing what was stored there.
\<close>

fun registerNodes ::
  "StandardsFile list \<Rightarrow> heap \<times> (string \<rightharpoonup> addr) \<Rightarrow> heap \<times> (string \<rightharpoonup> addr)" where
  "registerNodes [] (h, nodes) = (h, nodes)"
| "registerNodes (file # files) (h, nodes) =
     registerNodes files (h @ [newNode file], nodes(StandardsFile.Path file \<mapsto> length h))"

text \<open>
  Second loop. The state is the heap, the slice \<open>roots\<close> and the warnings logged so far
  (the fields \<open>path\<close> and \<open>parent\<close> of each). \<open>nodes[file.Path]\<close> always finds the pointer
  that the first loop stored for this path (lemma \<open>registerNodes_Some\<close>).
\<close>

type_synonym warning = "string \<times> string"

fun linkNodes ::
  "(string \<rightharpoonup> addr) \<Rightarrow> StandardsFile list \<Rightarrow> heap \<times> addr list \<times> warning list
     \<Rightarrow> heap \<times> addr list \<times> warning list" where
  "linkNodes nodes [] st = st"
| "linkNodes nodes (file # files) (h, roots, warnings) =
     (case StandardsHeader.Parent (Header file) of
        None \<Rightarrow>
          (let node = the (nodes (StandardsFile.Path file))
           in linkNodes nodes files (h, roots @ [node], warnings))
      | Some parentPath \<Rightarrow>
          (case nodes parentPath of
             None \<Rightarrow>
               linkNodes nodes files (h, roots, warnings @ [(StandardsFile.Path file, parentPath)])
           | Some parent \<Rightarrow>
               (let node = the (nodes (StandardsFile.Path file))
                in linkNodes nodes files
                     (h[parent := (h ! parent)\<lparr>Children := Children (h ! parent) @ [node]\<rparr>],
                      roots, warnings))))"

text \<open>
  sortChildren sorts the slice it is given in place and then calls itself on the children
  of every node of the slice. The recursion follows pointers and does not end when a
  node is reachable from itself, so the model counts the depth of the calls: with \<open>fuel\<close>
  calls left it returns \<open>None\<close> when the depth exceeds \<open>fuel\<close>. It returns the heap and the
  sorted content of the slice; \<open>sortEach\<close> is the \<open>for\<close> loop, and stores the sorted
  content of \<open>node.Children\<close> in the node, where the in-place sort leaves it. The store
  is made when the call on \<open>node.Children\<close> returns; the source sorts the slice at the
  start of that call. In between only the nodes below \<open>node\<close> are visited, so the order
  matters only when \<open>node\<close> is below itself, and then neither the source nor the model
  returns (lemmas \<open>sort_returns_depth\<close> and \<open>depth_below_acyclic\<close>).
\<close>

fun sortChildren :: "sorter \<Rightarrow> nat \<Rightarrow> heap \<Rightarrow> addr list \<Rightarrow> (heap \<times> addr list) option"
  and sortEach :: "sorter \<Rightarrow> nat \<Rightarrow> heap \<Rightarrow> addr list \<Rightarrow> heap option" where
  "sortChildren srt 0 h nodes = None"
| "sortChildren srt (Suc fuel) h nodes =
     (let nodes' = srt (\<lambda>i j. Node.Title (h ! i) < Node.Title (h ! j)) nodes
      in case sortEach srt fuel h nodes' of
           None \<Rightarrow> None
         | Some h' \<Rightarrow> Some (h', nodes'))"
| "sortEach srt fuel h [] = Some h"
| "sortEach srt fuel h (node # rest) =
     (case sortChildren srt fuel h (Children (h ! node)) of
        None \<Rightarrow> None
      | Some (h', children') \<Rightarrow>
          sortEach srt fuel (h'[node := (h' ! node)\<lparr>Children := children'\<rparr>]) rest)"

text \<open>
  BuildHierarchy returns the tree (the pointers to the roots) with the heap they point
  into and the warnings it logged; \<open>None\<close> when sortChildren does not return within
  \<open>fuel\<close> nested calls.
\<close>

definition BuildHierarchy ::
  "sorter \<Rightarrow> nat \<Rightarrow> StandardsFile list \<Rightarrow> (StandardsTree \<times> heap \<times> warning list) option" where
  "BuildHierarchy srt fuel files =
     (case registerNodes files ([], Map.empty) of
        (h0, nodes) \<Rightarrow>
          (case linkNodes nodes files (h0, [], []) of
             (h1, roots, warnings) \<Rightarrow>
               (case sortChildren srt fuel h1 roots of
                  None \<Rightarrow> None
                | Some (h2, roots') \<Rightarrow> Some (\<lparr>Nodes = roots'\<rparr>, h2, warnings))))"

section \<open>The pointer structure that BuildHierarchy leaves\<close>

text \<open>A node without its pointers: what never changes after the first loop.\<close>

definition node_info :: "Node \<Rightarrow> Node" where
  "node_info n = n\<lparr>Children := []\<rparr>"

text \<open>The nodes reachable from a set of pointers by following \<open>Children\<close>.\<close>

inductive_set reach :: "heap \<Rightarrow> addr set \<Rightarrow> addr set" for h :: heap and S :: "addr set" where
  start: "a \<in> S \<Longrightarrow> a \<in> reach h S"
| child: "a \<in> reach h S \<Longrightarrow> c \<in> set (Children (h ! a)) \<Longrightarrow> c \<in> reach h S"

definition descendants :: "heap \<Rightarrow> addr \<Rightarrow> addr set" where
  "descendants h a = reach h (set (Children (h ! a)))"

definition sorted_by_title :: "heap \<Rightarrow> addr list \<Rightarrow> bool" where
  "sorted_by_title h xs \<longleftrightarrow> sorted (map (\<lambda>a. Node.Title (h ! a)) xs)"

text \<open>
  The value of a node: the node with every pointer replaced by the value of the node it
  points to. This is what a traversal of the returned tree (the serializer's) reads.
  It exists when no chain of \<open>Children\<close> pointers from the node is longer than the fuel.
\<close>

datatype value_tree = VNode Node "value_tree list"

primrec reify :: "nat \<Rightarrow> heap \<Rightarrow> addr \<Rightarrow> value_tree option" where
  "reify 0 h a = None"
| "reify (Suc fuel) h a =
     map_option (VNode (node_info (h ! a))) (those (map (reify fuel h) (Children (h ! a))))"

definition reifyAll :: "nat \<Rightarrow> heap \<Rightarrow> addr list \<Rightarrow> value_tree list option" where
  "reifyAll fuel h roots = those (map (reify fuel h) roots)"

definition BuildForest :: "sorter \<Rightarrow> nat \<Rightarrow> StandardsFile list \<Rightarrow> value_tree list option" where
  "BuildForest srt fuel files =
     (case BuildHierarchy srt fuel files of
        None \<Rightarrow> None
      | Some (tree, h, warnings) \<Rightarrow> reifyAll fuel h (Nodes tree))"

text \<open>Two heaps with the same nodes, whose children differ in order only.\<close>

definition same_shape :: "heap \<Rightarrow> heap \<Rightarrow> bool" where
  "same_shape h h' \<longleftrightarrow>
     length h' = length h \<and>
     (\<forall>b. node_info (h' ! b) = node_info (h ! b) \<and>
          mset (Children (h' ! b)) = mset (Children (h ! b)))"

definition closed_heap :: "heap \<Rightarrow> bool" where
  "closed_heap h \<longleftrightarrow> (\<forall>a < length h. \<forall>c \<in> set (Children (h ! a)). c < length h)"

text \<open>No chain of \<open>Children\<close> pointers from \<open>a\<close> has \<open>fuel\<close> or more steps.\<close>

fun depth_below :: "nat \<Rightarrow> heap \<Rightarrow> addr \<Rightarrow> bool" where
  "depth_below 0 h a = False"
| "depth_below (Suc fuel) h a = (\<forall>c \<in> set (Children (h ! a)). depth_below fuel h c)"

text \<open>What the second loop appends, as a function of the lookup map.\<close>

definition rootsOf :: "(string \<rightharpoonup> addr) \<Rightarrow> StandardsFile list \<Rightarrow> addr list" where
  "rootsOf nodes files =
     map (\<lambda>f. the (nodes (StandardsFile.Path f)))
       (filter (\<lambda>f. StandardsHeader.Parent (Header f) = None) files)"

definition childrenOf :: "(string \<rightharpoonup> addr) \<Rightarrow> StandardsFile list \<Rightarrow> addr \<Rightarrow> addr list" where
  "childrenOf nodes files j =
     map (\<lambda>f. the (nodes (StandardsFile.Path f)))
       (filter (\<lambda>f. case StandardsHeader.Parent (Header f) of
                      None \<Rightarrow> False
                    | Some pp \<Rightarrow> nodes pp = Some j) files)"

definition warningsOf :: "(string \<rightharpoonup> addr) \<Rightarrow> StandardsFile list \<Rightarrow> warning list" where
  "warningsOf nodes files =
     map (\<lambda>f. (StandardsFile.Path f, the (StandardsHeader.Parent (Header f))))
       (filter (\<lambda>f. case StandardsHeader.Parent (Header f) of
                      None \<Rightarrow> False
                    | Some pp \<Rightarrow> nodes pp = None) files)"

text \<open>
  The pointer to the parent of the node of record \<open>c\<close>, and the number of parent links
  from a node up to a node without parent.
\<close>

definition parent_ptr :: "(string \<rightharpoonup> addr) \<Rightarrow> StandardsFile list \<Rightarrow> addr \<Rightarrow> addr option" where
  "parent_ptr nodes files c =
     (case StandardsHeader.Parent (Header (files ! c)) of
        None \<Rightarrow> None
      | Some pp \<Rightarrow> nodes pp)"

fun level :: "(addr \<Rightarrow> addr option) \<Rightarrow> nat \<Rightarrow> addr \<Rightarrow> bool" where
  "level par 0 a = (par a = None)"
| "level par (Suc k) a = (case par a of None \<Rightarrow> False | Some j \<Rightarrow> level par k j)"

section \<open>The tree as the specification describes it\<close>

text \<open>
  The forest described in words: the roots are the records without parent, the children
  of a record are the records whose parent is its path, and every sequence of siblings
  is in ascending order of title. \<open>canonNode\<close> follows parent references downwards for
  at most \<open>fuel\<close> levels.
\<close>

definition file_title :: "StandardsFile \<Rightarrow> string" where
  "file_title f = StandardsHeader.Title (Header f)"

primrec canonNode :: "nat \<Rightarrow> StandardsFile list \<Rightarrow> StandardsFile \<Rightarrow> value_tree option" where
  "canonNode 0 files r = None"
| "canonNode (Suc fuel) files r =
     map_option (VNode (newNode r))
       (those (map (canonNode fuel files)
          (sort_key file_title
             (filter (\<lambda>c. StandardsHeader.Parent (Header c) = Some (StandardsFile.Path r)) files))))"

definition canonForest :: "nat \<Rightarrow> StandardsFile list \<Rightarrow> value_tree list option" where
  "canonForest fuel files =
     those (map (canonNode fuel files)
       (sort_key file_title (filter (\<lambda>c. StandardsHeader.Parent (Header c) = None) files)))"

text \<open>No two records with the same parent reference (or both without one) share a title.\<close>

definition sibling_titles_distinct :: "StandardsFile list \<Rightarrow> bool" where
  "sibling_titles_distinct files \<longleftrightarrow>
     (\<forall>r1 \<in> set files. \<forall>r2 \<in> set files.
        StandardsHeader.Parent (Header r1) = StandardsHeader.Parent (Header r2) \<and>
        file_title r1 = file_title r2 \<longrightarrow> r1 = r2)"

section \<open>Serialization (yaml.Marshal of the yaml.v2 library, called by GenerateStandardsTree)\<close>

text \<open>
  \<open>yaml.Marshal\<close> writes a struct as a mapping with one entry per exported field, in the
  order of declaration. The key of a field is the name in its \<open>yaml\<close> tag, or the field
  name in lower case when the tag names none; a field tagged \<open>yaml:"-"\<close> is left out.
  A pointer is written as the value it points to, a slice (also a nil one) as a sequence.
  The model produces the document as a tree, not as text.
\<close>

datatype yaml = YNull | YString string | YSeq "yaml list" | YMap "(string \<times> yaml) list"








section \<open>Example inputs\<close>

text \<open>The records of \<open>TestBuildHierarchy\<close>, and the heap and tree BuildHierarchy makes of them.\<close>

definition test_files :: "StandardsFile list" where
  "test_files =
     [\<lparr>StandardsFile.Path = ''tests/tmp/golang/frameworks/GIN-GONIC.md'',
       Header = \<lparr>StandardsHeader.Title = ''Golang Gin-Gonic Standards'',
                  Description = ''Standards for using Gin Gonic framework.'',
                  Scope = ''*.go'',
                  Topics = Some [''golang'', ''api'', ''gin-gonic''],
                  Parent = Some ''tests/tmp/golang/API.md''\<rparr>\<rparr>,
      \<lparr>StandardsFile.Path = ''tests/tmp/golang/API.md'',
       Header = \<lparr>StandardsHeader.Title = ''Golang REST API Standards'',
                  Description = ''Standards for writing REST APIs in Go.'',
                  Scope = ''*.go'',
                  Topics = Some [''golang'', ''api'', ''rest'', ''gin-gonic''],
                  Parent = Some ''tests/tmp/golang/GENERAL.md''\<rparr>\<rparr>,
      \<lparr>StandardsFile.Path = ''tests/tmp/golang/WORKER.md'',
       Header = \<lparr>StandardsHeader.Title = ''Golang Worker Standards'',
                  Description = ''Standards for writing background workers in Go.'',
                  Scope = ''*.go'',
                  Topics = Some [''golang'', ''worker'', ''rabbitmq'', ''message-broker'', ''amqp''],
                  Parent = Some ''tests/tmp/golang/GENERAL.md''\<rparr>\<rparr>,
      \<lparr>StandardsFile.Path = ''tests/tmp/golang/GENERAL.md'',
       Header = \<lparr>StandardsHeader.Title = ''Golang General Standards'',
                  Description = ''General standards for writing Go applications.'',
                  Scope = ''*.go'',
                  Topics = Some [''golang''],
                  Parent = None\<rparr>\<rparr>,
      \<lparr>StandardsFile.Path = ''tests/tmp/GENERAL.md'',
       Header = \<lparr>StandardsHeader.Title = ''General Code Standards'',
                  Description = ''Cross-language general coding standards and best practices.'',
                  Scope = ''*'',
                  Topics = Some [''general'', ''docker'', ''makefiles'', ''pre-commit''],
                  Parent = None\<rparr>\<rparr>]"

definition test_heap :: heap where
  "test_heap =
     [newNode (test_files ! 0),
      (newNode (test_files ! 1))\<lparr>Children := [0]\<rparr>,
      newNode (test_files ! 2),
      (newNode (test_files ! 3))\<lparr>Children := [1, 2]\<rparr>,
      newNode (test_files ! 4)]"

definition test_tree :: StandardsTree where
  "test_tree = \<lparr>Nodes = [4, 3]\<rparr>"

text \<open>A record with the fields that matter for the links; the others are fixed.\<close>

definition record_of :: "string \<Rightarrow> string \<Rightarrow> string option \<Rightarrow> StandardsFile" where
  "record_of path title parent =
     \<lparr>StandardsFile.Path = path,
      Header = \<lparr>StandardsHeader.Title = title, Description = ''d'', Scope = ''*'',
                 Topics = Some [], Parent = parent\<rparr>\<rparr>"

text \<open>The scenario of the specification: A, B under A, C, D under C, E under a missing path.\<close>

definition scenario_files :: "StandardsFile list" where
  "scenario_files =
     [record_of ''A'' ''Alpha'' None,
      record_of ''B'' ''Beta'' (Some ''A''),
      record_of ''C'' ''Gamma'' None,
      record_of ''D'' ''Delta'' (Some ''C''),
      record_of ''E'' ''Epsilon'' (Some ''missing-path'')]"

text \<open>The collection scenario: \<open>tree/A.md\<close> declares the parent \<open>sub/OTHER.md\<close>.\<close>

definition scenario_visits :: "visit list" where
  "scenario_visits =
     [(''tree'', \<lparr>Name = ''tree'', IsDir = True\<rparr>, None),
      (''tree/A.md'', \<lparr>Name = ''A.md'', IsDir = False\<rparr>, None),
      (''tree/notes.txt'', \<lparr>Name = ''notes.txt'', IsDir = False\<rparr>, None),
      (''tree/sub'', \<lparr>Name = ''sub'', IsDir = True\<rparr>, None),
      (''tree/sub/OTHER.md'', \<lparr>Name = ''OTHER.md'', IsDir = False\<rparr>, None)]"

definition scenario_readFile :: "string \<Rightarrow> error + string" where
  "scenario_readFile path =
     (if path = ''tree/A.md'' then Inr ''A''
      else if path = ''tree/sub/OTHER.md'' then Inr ''OTHER''
      else Inl (IOError path))"

definition scenario_parseFM :: "string \<Rightarrow> error + StandardsHeader" where
  "scenario_parseFM content =
     (if content = ''A'' then Inr (Header (record_of [] ''Alpha'' (Some ''sub/OTHER.md'')))
      else if content = ''OTHER'' then Inr (Header (record_of [] ''Other'' None))
      else Inr zeroHeader)"

text \<open>
  Records given in an order that is not the order of their titles: the roots \<open>Root\<close> and
  \<open>Alpha\<close>, and under \<open>Root\<close> the children \<open>Zeta\<close> and \<open>Beta\<close>.
\<close>

definition reorder_files :: "StandardsFile list" where
  "reorder_files =
     [record_of ''root.md'' ''Root'' None,
      record_of ''z.md'' ''Zeta'' (Some ''root.md''),
      record_of ''b.md'' ''Beta'' (Some ''root.md''),
      record_of ''a.md'' ''Alpha'' None]"

text \<open>A document whose front matter is delimited but is not well-formed YAML.\<close>

definition broken_doc :: string where
  "broken_doc = ''---\<newline>title: [broken\<newline>---\<newline>body''"

definition broken_readFile :: "string \<Rightarrow> error + string" where
  "broken_readFile path =
     (if path = ''docs/BROKEN.md'' then Inr broken_doc else Inl (IOError path))"

definition broken_parseFM :: "string \<Rightarrow> error + StandardsHeader" where
  "broken_parseFM content =
     (if content = broken_doc then Inl (FrontMatterError ''yaml: did not find expected , or ]'')
      else Inr zeroHeader)"

section \<open>Properties of header extraction\<close>

lemma ExtractMDHeader_read_error:
  "readFile path = Inl e \<Longrightarrow> ExtractMDHeader readFile parseFM path = Inl e"
  by (simp add: ExtractMDHeader_def)

lemma ExtractMDHeader_parse_error:
  "readFile path = Inr c \<Longrightarrow> parseFM c = Inl e \<Longrightarrow> ExtractMDHeader readFile parseFM path = Inl e"
  by (simp add: ExtractMDHeader_def)

lemma ExtractMDHeader_no_front_matter:
  "readFile path = Inr c \<Longrightarrow> parseFM c = Inr zeroHeader \<Longrightarrow>
     ExtractMDHeader readFile parseFM path = Inr None"
  by (simp add: ExtractMDHeader_def validate_Struct_def required_string_def zeroHeader_def)

text \<open>
  C4. A readable document whose front matter does not decode: \<open>frontmatter.Parse\<close> returns
  an error and ExtractMDHeader returns that error, not the "no header" result \<open>(nil, nil)\<close>
  it gives for a document without front matter; ParseMDDocuments, walking a directory
  that holds the document, returns the error as well.
\<close>

theorem ExtractMDHeader_malformed_front_matter_is_error:
  "ExtractMDHeader broken_readFile broken_parseFM ''docs/BROKEN.md''
     = Inl (FrontMatterError ''yaml: did not find expected , or ]'')
   \<and> ExtractMDHeader broken_readFile broken_parseFM ''docs/BROKEN.md'' \<noteq> Inr None
   \<and> ParseMDDocuments broken_readFile broken_parseFM
        [(''docs'', \<lparr>Name = ''docs'', IsDir = True\<rparr>, None),
         (''docs/BROKEN.md'', \<lparr>Name = ''BROKEN.md'', IsDir = False\<rparr>, None)]
        ''docs''
     = ([], Some (FrontMatterError ''yaml: did not find expected , or ]''))"
proof -
  have e: "ExtractMDHeader broken_readFile broken_parseFM ''docs/BROKEN.md''
     = Inl (FrontMatterError ''yaml: did not find expected , or ]'')"
    by (simp add: ExtractMDHeader_def broken_readFile_def broken_parseFM_def)
  have "HasSuffix ''BROKEN.md'' ''.md''" by (simp add: HasSuffix_def)
  with e show ?thesis by (simp add: ParseMDDocuments_def)
qed

text \<open>
  C5. A header with non-empty title, description and scope whose topics are present but
  empty (an allocated slice of length 0) passes validation and is returned.
\<close>

theorem ExtractMDHeader_accepts_empty_topics:
  assumes "readFile path = Inr content"
    and "parseFM content = Inr h"
    and "StandardsHeader.Title h \<noteq> []"
    and "StandardsHeader.Description h \<noteq> []"
    and "StandardsHeader.Scope h \<noteq> []"
    and "StandardsHeader.Topics h = Some []"
  shows "ExtractMDHeader readFile parseFM path = Inr (Some h)"
  using assms
  by (simp add: ExtractMDHeader_def validate_Struct_def required_string_def required_slice_def)

theorem ExtractMDHeader_accepts_empty_topics_witness:
  "ExtractMDHeader
     (\<lambda>p. Inr ''---\<newline>title: T\<newline>description: D\<newline>scope: S\<newline>topics: []\<newline>---\<newline>'')
     (\<lambda>c. Inr \<lparr>StandardsHeader.Title = ''T'', Description = ''D'', Scope = ''S'',
                Topics = Some [], Parent = None\<rparr>)
     ''A.md''
   = Inr (Some \<lparr>StandardsHeader.Title = ''T'', Description = ''D'', Scope = ''S'',
                Topics = Some [], Parent = None\<rparr>)"
  using ExtractMDHeader_accepts_empty_topics
    [of "\<lambda>p. Inr ''---\<newline>title: T\<newline>description: D\<newline>scope: S\<newline>topics: []\<newline>---\<newline>''"
        "''A.md''"
        "''---\<newline>title: T\<newline>description: D\<newline>scope: S\<newline>topics: []\<newline>---\<newline>''"
        "\<lambda>c. Inr \<lparr>StandardsHeader.Title = ''T'', Description = ''D'', Scope = ''S'',
                Topics = Some [], Parent = None\<rparr>"
        "\<lparr>StandardsHeader.Title = ''T'', Description = ''D'', Scope = ''S'',
                Topics = Some [], Parent = None\<rparr>"]
  by simp

section \<open>Properties of document collection\<close>

lemma WalkDir_walkFn_records:
  "WalkDir (walkFn readFile parseFM) visits hs0 = (hs, err) \<Longrightarrow> r \<in> set hs \<Longrightarrow>
     r \<in> set hs0 \<or>
     (\<exists>d. (StandardsFile.Path r, d, None) \<in> set visits \<and> \<not> IsDir d \<and> HasSuffix (Name d) ''.md'' \<and>
          ExtractMDHeader readFile parseFM (StandardsFile.Path r) = Inr (Some (Header r)))"
proof (induction visits arbitrary: hs0)
  case Nil
  then show ?case by simp
next
  case (Cons v vs)
  obtain path d e where v: "v = (path, d, e)" by (cases v) auto
  obtain hs1 err1 where step: "walkFn readFile parseFM v hs0 = (hs1, err1)" by fastforce
  have from_step: "x \<in> set hs1 \<Longrightarrow>
      x \<in> set hs0 \<or> (e = None \<and> \<not> IsDir d \<and> HasSuffix (Name d) ''.md'' \<and> StandardsFile.Path x = path \<and>
        ExtractMDHeader readFile parseFM path = Inr (Some (Header x)))" for x
    using step unfolding v
    by (auto split: option.splits if_splits sum.splits)
  show ?case
  proof (cases err1)
    case None
    with Cons.prems(1) step have "WalkDir (walkFn readFile parseFM) vs hs1 = (hs, err)"
      by simp
    from Cons.IH[OF this Cons.prems(2)] show ?thesis
    proof
      assume "r \<in> set hs1"
      from from_step[OF this] show ?thesis unfolding v by auto
    next
      assume "\<exists>d. (StandardsFile.Path r, d, None) \<in> set vs \<and> \<not> IsDir d \<and> HasSuffix (Name d) ''.md'' \<and>
          ExtractMDHeader readFile parseFM (StandardsFile.Path r) = Inr (Some (Header r))"
      then show ?thesis by auto
    qed
  next
    case (Some e1)
    with Cons.prems(1) step have "hs = hs1" by simp
    with Cons.prems(2) from_step[of r] show ?thesis unfolding v by auto
  qed
qed

text \<open>
  C7. Every record that ParseMDDocuments returns comes from a visited Markdown file whose
  header was extracted, keeps that header's other fields, and has as parent the
  \<open>path.Join\<close> of the root and the parent the document declared (none when it declared
  none). For the root \<open>tree\<close> and the declared parent \<open>sub/OTHER.md\<close> the joined value
  is \<open>tree/sub/OTHER.md\<close>, the path under which the walk yields that file.
\<close>

theorem ParseMDDocuments_parent_joined:
  assumes "ParseMDDocuments readFile parseFM visits root = (files, err)"
    and "r \<in> set files"
  shows "(\<exists>h d. (StandardsFile.Path r, d, None) \<in> set visits \<and>
            ExtractMDHeader readFile parseFM (StandardsFile.Path r) = Inr (Some h) \<and>
            StandardsHeader.Parent (Header r)
              = map_option (\<lambda>parent. path_Join [root, parent]) (StandardsHeader.Parent h) \<and>
            StandardsHeader.Title (Header r) = StandardsHeader.Title h \<and>
            StandardsHeader.Description (Header r) = StandardsHeader.Description h \<and>
            StandardsHeader.Scope (Header r) = StandardsHeader.Scope h \<and>
            StandardsHeader.Topics (Header r) = StandardsHeader.Topics h)
         \<and> path_Join [''tree'', ''sub/OTHER.md''] = ''tree/sub/OTHER.md''"
proof
  obtain hs where walk: "WalkDir (walkFn readFile parseFM) visits [] = (hs, err)"
    and files: "files = map (augmentParent root) hs"
    using assms(1) by (auto simp: ParseMDDocuments_def split: prod.splits)
  from assms(2) files obtain r0 where r0: "r0 \<in> set hs" and r: "r = augmentParent root r0"
    by auto
  from WalkDir_walkFn_records[OF walk r0]
  obtain d where d: "(StandardsFile.Path r0, d, None) \<in> set visits"
    and ex: "ExtractMDHeader readFile parseFM (StandardsFile.Path r0) = Inr (Some (Header r0))"
    by auto
  have p: "StandardsFile.Path r = StandardsFile.Path r0"
    unfolding r by (simp add: augmentParent_def split: option.splits)
  have "StandardsHeader.Parent (Header r)
          = map_option (\<lambda>parent. path_Join [root, parent]) (StandardsHeader.Parent (Header r0))"
    and "StandardsHeader.Title (Header r) = StandardsHeader.Title (Header r0)"
    and "StandardsHeader.Description (Header r) = StandardsHeader.Description (Header r0)"
    and "StandardsHeader.Scope (Header r) = StandardsHeader.Scope (Header r0)"
    and "StandardsHeader.Topics (Header r) = StandardsHeader.Topics (Header r0)"
    unfolding r by (simp_all add: augmentParent_def split: option.splits)
  with d ex p
  show "\<exists>h d. (StandardsFile.Path r, d, None) \<in> set visits \<and>
            ExtractMDHeader readFile parseFM (StandardsFile.Path r) = Inr (Some h) \<and>
            StandardsHeader.Parent (Header r)
              = map_option (\<lambda>parent. path_Join [root, parent]) (StandardsHeader.Parent h) \<and>
            StandardsHeader.Title (Header r) = StandardsHeader.Title h \<and>
            StandardsHeader.Description (Header r) = StandardsHeader.Description h \<and>
            StandardsHeader.Scope (Header r) = StandardsHeader.Scope h \<and>
            StandardsHeader.Topics (Header r) = StandardsHeader.Topics h"
    by auto
next
  show "path_Join [''tree'', ''sub/OTHER.md''] = ''tree/sub/OTHER.md''"
    by (simp add: path_Join_def path_Clean_def join_step_def)
qed

text \<open>The collection scenario of the specification.\<close>

theorem ParseMDDocuments_parent_joined_witness:
  "ParseMDDocuments scenario_readFile scenario_parseFM scenario_visits ''tree''
     = ([record_of ''tree/A.md'' ''Alpha'' (Some ''tree/sub/OTHER.md''),
         record_of ''tree/sub/OTHER.md'' ''Other'' None], None)
   \<and> StandardsHeader.Parent (Header (record_of ''tree/A.md'' ''Alpha'' (Some ''tree/sub/OTHER.md'')))
     = Some (StandardsFile.Path (record_of ''tree/sub/OTHER.md'' ''Other'' None))
   \<and> ExtractMDHeader scenario_readFile scenario_parseFM ''tree/A.md''
     = Inr (Some (Header (record_of [] ''Alpha'' (Some ''sub/OTHER.md''))))
   \<and> path_Join [''tree'', ''sub/OTHER.md''] = ''tree/sub/OTHER.md''"
proof -
  have run: "ParseMDDocuments scenario_readFile scenario_parseFM scenario_visits ''tree''
     = ([record_of ''tree/A.md'' ''Alpha'' (Some ''tree/sub/OTHER.md''),
         record_of ''tree/sub/OTHER.md'' ''Other'' None], None)"
    by code_simp
  have ex: "ExtractMDHeader scenario_readFile scenario_parseFM ''tree/A.md''
     = Inr (Some (Header (record_of [] ''Alpha'' (Some ''sub/OTHER.md''))))"
    by code_simp
  have "record_of ''tree/A.md'' ''Alpha'' (Some ''tree/sub/OTHER.md'')
      \<in> set [record_of ''tree/A.md'' ''Alpha'' (Some ''tree/sub/OTHER.md''),
             record_of ''tree/sub/OTHER.md'' ''Other'' None]"
    by simp
  from ParseMDDocuments_parent_joined[OF run this]
  have "path_Join [''tree'', ''sub/OTHER.md''] = ''tree/sub/OTHER.md''" by blast
  with run ex show ?thesis by (simp add: record_of_def)
qed

section \<open>Properties of the sorting function\<close>

lemma mset_insert_left: "mset (insert_left lt x ys) = add_mset x (mset ys)"
  by (induction ys) auto

lemma mset_foldl_insert_left:
  "mset (foldl (\<lambda>pre x. insert_left lt x pre) acc xs) = mset acc + mset xs"
  by (induction xs arbitrary: acc) (auto simp: mset_insert_left)

lemma set_insert_left: "set (insert_left lt x ys) = insert x (set ys)"
  using mset_insert_left[of lt x ys] by (metis set_mset_add_mset_insert set_mset_mset)

lemma sorted_insert_left:
  fixes key :: "'a \<Rightarrow> string"
  shows "sorted (rev (map key ys)) \<Longrightarrow>
     sorted (rev (map key (insert_left (\<lambda>a b. key a < key b) x ys)))"
proof (induction ys)
  case Nil
  then show ?case by simp
next
  case (Cons y ys)
  then show ?case
    by (auto simp: sorted_append set_insert_left)
qed

lemma sorted_foldl_insert_left:
  fixes key :: "'a \<Rightarrow> string"
  shows "sorted (rev (map key acc)) \<Longrightarrow>
     sorted (rev (map key (foldl (\<lambda>pre x. insert_left (\<lambda>a b. key a < key b) x pre) acc xs)))"
  by (induction xs arbitrary: acc) (auto simp: sorted_insert_left)

lemma insertionSortLessFunc_spec: "sort_Slice_spec insertionSortLessFunc"
  unfolding sort_Slice_spec_def insertionSortLessFunc_def
  using sorted_foldl_insert_left[of _ "[]"]
  by (auto simp: mset_foldl_insert_left rev_map)

section \<open>Properties of the hierarchy construction\<close>

lemma node_info_simps [simp]:
  "Node.Path (node_info n) = Node.Path n"
  "Node.Title (node_info n) = Node.Title n"
  "Node.Description (node_info n) = Node.Description n"
  "Node.Scope (node_info n) = Node.Scope n"
  "Node.Topics (node_info n) = Node.Topics n"
  "Node.Parent (node_info n) = Node.Parent n"
  "Children (node_info n) = []"
  "node_info (n\<lparr>Children := cs\<rparr>) = node_info n"
  "node_info (newNode f) = newNode f"
  by (simp_all add: node_info_def newNode_def)

lemma node_info_eq_fields:
  assumes "node_info n = node_info m"
  shows "Node.Title n = Node.Title m" and "Node.Path n = Node.Path m"
proof -
  have "Node.Title (node_info n) = Node.Title (node_info m)"
    and "Node.Path (node_info n) = Node.Path (node_info m)"
    using assms by simp_all
  then show "Node.Title n = Node.Title m" and "Node.Path n = Node.Path m" by simp_all
qed

subsection \<open>First loop\<close>

lemma registerNodes_heap:
  "fst (registerNodes files (h, nodes)) = h @ map newNode files"
  by (induction files arbitrary: h nodes) auto

lemma registerNodes_map:
  "snd (registerNodes files (h, nodes)) p = Some a \<Longrightarrow>
     (nodes p = Some a \<and> p \<notin> StandardsFile.Path ` set files) \<or>
     (length h \<le> a \<and> a < length h + length files \<and> StandardsFile.Path (files ! (a - length h)) = p)"
proof (induction files arbitrary: h nodes)
  case Nil
  then show ?case by simp
next
  case (Cons f fs)
  from Cons.prems
  have "snd (registerNodes fs (h @ [newNode f], nodes(StandardsFile.Path f \<mapsto> length h))) p = Some a"
    by simp
  from Cons.IH[OF this] show ?case
  proof
    assume a: "(nodes(StandardsFile.Path f \<mapsto> length h)) p = Some a \<and> p \<notin> StandardsFile.Path ` set fs"
    show ?thesis
    proof (cases "p = StandardsFile.Path f")
      case True
      with a have "a = length h" by simp
      with True show ?thesis by simp
    next
      case False
      with a show ?thesis by simp
    qed
  next
    assume "length (h @ [newNode f]) \<le> a \<and> a < length (h @ [newNode f]) + length fs \<and>
      StandardsFile.Path (fs ! (a - length (h @ [newNode f]))) = p"
    then have "length h < a" and "a < length h + length (f # fs)" and "StandardsFile.Path (fs ! (a - Suc (length h))) = p"
      by simp_all
    moreover have "(f # fs) ! (a - length h) = fs ! (a - Suc (length h))"
      using \<open>length h < a\<close> by (simp add: nth_Cons')
    ultimately show ?thesis by simp
  qed
qed

lemma registerNodes_dom:
  "snd (registerNodes files (h, nodes)) p = None \<longleftrightarrow>
     nodes p = None \<and> p \<notin> StandardsFile.Path ` set files"
  by (induction files arbitrary: h nodes) auto

lemma registerNodes_Some:
  assumes "registerNodes files ([], Map.empty) = (h0, nodes)"
  shows "h0 = map newNode files"
    and "nodes p = Some a \<Longrightarrow> a < length files \<and> StandardsFile.Path (files ! a) = p"
    and "nodes p = None \<longleftrightarrow> p \<notin> StandardsFile.Path ` set files"
    and "f \<in> set files \<Longrightarrow> \<exists>a. nodes (StandardsFile.Path f) = Some a"
proof -
  show "h0 = map newNode files"
    using registerNodes_heap[of files "[]" Map.empty] assms by simp
  have n: "nodes = snd (registerNodes files ([], Map.empty))" using assms by simp
  show "nodes p = Some a \<Longrightarrow> a < length files \<and> StandardsFile.Path (files ! a) = p"
    using registerNodes_map[of files "[]" Map.empty p a] unfolding n by auto
  show d: "nodes p = None \<longleftrightarrow> p \<notin> StandardsFile.Path ` set files"
    unfolding n using registerNodes_dom[of files "[]" Map.empty p] by simp
  show "f \<in> set files \<Longrightarrow> \<exists>a. nodes (StandardsFile.Path f) = Some a"
    unfolding n using registerNodes_dom[of files "[]" Map.empty "StandardsFile.Path f"] by auto
qed

lemma registerNodes_distinct:
  assumes "registerNodes files ([], Map.empty) = (h0, nodes)"
    and "distinct (map StandardsFile.Path files)"
    and "i < length files"
  shows "nodes (StandardsFile.Path (files ! i)) = Some i"
proof -
  from registerNodes_Some(4)[OF assms(1), of "files ! i"] assms(3)
  obtain a where a: "nodes (StandardsFile.Path (files ! i)) = Some a" by auto
  from registerNodes_Some(2)[OF assms(1) a]
  have "a < length files" and "StandardsFile.Path (files ! a) = StandardsFile.Path (files ! i)" by auto
  then have "map StandardsFile.Path files ! a = map StandardsFile.Path files ! i"
    using assms(3) by simp
  with \<open>a < length files\<close> assms(3) have "a = i"
    using nth_eq_iff_index_eq[OF assms(2), of a i] by simp
  with a show ?thesis by simp
qed

subsection \<open>Second loop\<close>

lemma linkNodes_result:
  "linkNodes nodes files (h, roots, warnings) = (h', roots', warnings') \<Longrightarrow>
     roots' = roots @ rootsOf nodes files \<and>
     warnings' = warnings @ warningsOf nodes files \<and>
     length h' = length h \<and>
     (\<forall>j. node_info (h' ! j) = node_info (h ! j)) \<and>
     (\<forall>j < length h. Children (h' ! j) = Children (h ! j) @ childrenOf nodes files j)"
proof (induction files arbitrary: h roots warnings)
  case Nil
  then show ?case by (simp add: rootsOf_def warningsOf_def childrenOf_def)
next
  case (Cons f fs)
  show ?case
  proof (cases "StandardsHeader.Parent (Header f)")
    case None
    with Cons.prems
    have "linkNodes nodes fs (h, roots @ [the (nodes (StandardsFile.Path f))], warnings) = (h', roots', warnings')"
      by simp
    from Cons.IH[OF this] None show ?thesis
      by (simp add: rootsOf_def warningsOf_def childrenOf_def)
  next
    case (Some pp)
    show ?thesis
    proof (cases "nodes pp")
      case None
      with Some Cons.prems
      have "linkNodes nodes fs (h, roots, warnings @ [(StandardsFile.Path f, pp)]) = (h', roots', warnings')"
        by simp
      from Cons.IH[OF this] None Some show ?thesis
        by (simp add: rootsOf_def warningsOf_def childrenOf_def)
    next
      case (Some parent)
      let ?node = "the (nodes (StandardsFile.Path f))"
      let ?h1 = "h[parent := (h ! parent)\<lparr>Children := Children (h ! parent) @ [?node]\<rparr>]"
      from Some \<open>StandardsHeader.Parent (Header f) = Some pp\<close> Cons.prems
      have "linkNodes nodes fs (?h1, roots, warnings) = (h', roots', warnings')"
        by simp
      from Cons.IH[OF this]
      have ih: "roots' = roots @ rootsOf nodes fs"
        "warnings' = warnings @ warningsOf nodes fs"
        "length h' = length h"
        "\<And>j. node_info (h' ! j) = node_info (?h1 ! j)"
        "\<And>j. j < length h \<Longrightarrow> Children (h' ! j) = Children (?h1 ! j) @ childrenOf nodes fs j"
        by simp_all
      have info: "node_info (?h1 ! j) = node_info (h ! j)" for j
        by (cases "parent < length h"; cases "j = parent") (simp_all add: list_update_beyond)
      have kids: "Children (?h1 ! j) @ childrenOf nodes fs j = Children (h ! j) @ childrenOf nodes (f # fs) j"
        if "j < length h" for j
        using that Some \<open>StandardsHeader.Parent (Header f) = Some pp\<close>
        by (cases "j = parent") (simp_all add: childrenOf_def)
      show ?thesis
        using ih info kids Some \<open>StandardsHeader.Parent (Header f) = Some pp\<close>
        by (simp add: rootsOf_def warningsOf_def)
    qed
  qed
qed

subsection \<open>The sorting function\<close>

lemma srt_key:
  fixes key :: "addr \<Rightarrow> string"
  shows "sort_Slice_spec srt \<Longrightarrow>
     mset (srt (\<lambda>a b. key a < key b) xs) = mset xs \<and> sorted (map key (srt (\<lambda>a b. key a < key b) xs))"
  unfolding sort_Slice_spec_def by blast

lemma srt_mset:
  "sort_Slice_spec srt \<Longrightarrow> mset (srt (\<lambda>i j. Node.Title (h ! i) < Node.Title (h ! j)) xs) = mset xs"
  using srt_key[of srt "\<lambda>a. Node.Title (h ! a)" xs] by simp

lemma srt_set:
  "sort_Slice_spec srt \<Longrightarrow> set (srt (\<lambda>i j. Node.Title (h ! i) < Node.Title (h ! j)) xs) = set xs"
  using srt_mset[of srt h xs] by (metis set_mset_mset)

lemma srt_sorted:
  "sort_Slice_spec srt \<Longrightarrow> sorted_by_title h (srt (\<lambda>i j. Node.Title (h ! i) < Node.Title (h ! j)) xs)"
  using srt_key[of srt "\<lambda>a. Node.Title (h ! a)" xs] by (simp add: sorted_by_title_def)

subsection \<open>Heaps of the same shape\<close>

lemma same_shape_refl: "same_shape h h"
  by (simp add: same_shape_def)

lemma same_shape_trans: "same_shape h1 h2 \<Longrightarrow> same_shape h2 h3 \<Longrightarrow> same_shape h1 h3"
  by (simp add: same_shape_def)

lemma same_shape_length: "same_shape h h' \<Longrightarrow> length h' = length h"
  by (simp add: same_shape_def)

lemma same_shape_info: "same_shape h h' \<Longrightarrow> node_info (h' ! b) = node_info (h ! b)"
  by (simp add: same_shape_def)

lemma same_shape_title: "same_shape h h' \<Longrightarrow> Node.Title (h' ! b) = Node.Title (h ! b)"
  using node_info_eq_fields(1)[of "h' ! b" "h ! b"] by (simp add: same_shape_def)

lemma same_shape_path: "same_shape h h' \<Longrightarrow> Node.Path (h' ! b) = Node.Path (h ! b)"
  using node_info_eq_fields(2)[of "h' ! b" "h ! b"] by (simp add: same_shape_def)

lemma same_shape_mset: "same_shape h h' \<Longrightarrow> mset (Children (h' ! b)) = mset (Children (h ! b))"
  by (simp add: same_shape_def)

lemma same_shape_set: "same_shape h h' \<Longrightarrow> set (Children (h' ! b)) = set (Children (h ! b))"
  using same_shape_mset[of h h' b] by (metis set_mset_mset)

lemma same_shape_update:
  assumes "mset cs = mset (Children (h ! a))"
  shows "same_shape h (h[a := (h ! a)\<lparr>Children := cs\<rparr>])"
proof -
  have "node_info (h[a := (h ! a)\<lparr>Children := cs\<rparr>] ! b) = node_info (h ! b) \<and>
        mset (Children (h[a := (h ! a)\<lparr>Children := cs\<rparr>] ! b)) = mset (Children (h ! b))" for b
    using assms by (cases "a < length h"; cases "b = a") (simp_all add: list_update_beyond)
  then show ?thesis by (simp add: same_shape_def)
qed

lemma same_shape_sorted_by_title:
  "same_shape h h' \<Longrightarrow> sorted_by_title h' xs = sorted_by_title h xs"
  by (simp add: sorted_by_title_def same_shape_title)

lemma same_shape_reach_sub:
  assumes "same_shape h h'" and "a \<in> reach h S"
  shows "a \<in> reach h' S"
  using assms(2)
proof (induction rule: reach.induct)
  case (start a)
  then show ?case by (rule reach.start)
next
  case (child a c)
  from child.hyps(2) same_shape_set[OF assms(1), of a] have "c \<in> set (Children (h' ! a))" by simp
  with child.IH show ?case by (rule reach.child)
qed

lemma same_shape_sym: "same_shape h h' \<Longrightarrow> same_shape h' h"
  by (simp add: same_shape_def)

lemma same_shape_reach: "same_shape h h' \<Longrightarrow> reach h' S = reach h S"
  using same_shape_reach_sub[of h h'] same_shape_reach_sub[of h' h] same_shape_sym[of h h']
  by blast

lemma same_shape_closed: "same_shape h h' \<Longrightarrow> closed_heap h \<Longrightarrow> closed_heap h'"
  unfolding closed_heap_def using same_shape_set[of h h'] same_shape_length[of h h'] by simp

lemma same_shape_depth_below:
  "same_shape h h' \<Longrightarrow> depth_below fuel h' a = depth_below fuel h a"
  by (induction fuel arbitrary: a) (simp_all add: same_shape_set)

subsection \<open>sortChildren changes the order of children only\<close>

lemma sort_frame:
  "sort_Slice_spec srt \<Longrightarrow> sortChildren srt fuel h ns = Some (h', ns') \<Longrightarrow>
     same_shape h h' \<and> ns' = srt (\<lambda>i j. Node.Title (h ! i) < Node.Title (h ! j)) ns"
  "sort_Slice_spec srt \<Longrightarrow> sortEach srt fuel h ns = Some h'' \<Longrightarrow> same_shape h h''"
proof (induction srt fuel h ns and srt fuel h ns arbitrary: h' ns' and h''
    rule: sortChildren_sortEach.induct)
  case (1 srt h nodes)
  then show ?case by simp
next
  case (2 srt fuel h nodes)
  from "2.prems"(2) have "sortEach srt fuel h (srt (\<lambda>i j. Node.Title (h ! i) < Node.Title (h ! j)) nodes) = Some h'"
    and "ns' = srt (\<lambda>i j. Node.Title (h ! i) < Node.Title (h ! j)) nodes"
    by (auto simp: Let_def split: option.splits)
  with "2.IH"[OF refl "2.prems"(1)] show ?case by simp
next
  case (3 srt fuel h)
  then show ?case by (simp add: same_shape_refl)
next
  case (4 srt fuel h node rest)
  from "4.prems"(2) obtain h1 cs where
    sc: "sortChildren srt fuel h (Children (h ! node)) = Some (h1, cs)"
    and se: "sortEach srt fuel (h1[node := (h1 ! node)\<lparr>Children := cs\<rparr>]) rest = Some h''"
    by (auto split: option.splits)
  from "4.IH"(1)[OF "4.prems"(1) sc]
  have s1: "same_shape h h1"
    and cs: "cs = srt (\<lambda>i j. Node.Title (h ! i) < Node.Title (h ! j)) (Children (h ! node))"
    by simp_all
  have "mset cs = mset (Children (h1 ! node))"
    unfolding cs using srt_mset[OF "4.prems"(1)] same_shape_mset[OF s1] by simp
  then have s2: "same_shape h1 (h1[node := (h1 ! node)\<lparr>Children := cs\<rparr>])"
    by (rule same_shape_update)
  from "4.IH"(2)[OF sc refl "4.prems"(1) se]
  have "same_shape (h1[node := (h1 ! node)\<lparr>Children := cs\<rparr>]) h''" .
  with s1 s2 show ?case by (blast intro: same_shape_trans)
qed

subsection \<open>Reachability\<close>

lemma reach_Cons_cases:
  assumes "x \<in> reach h (set (a # rest))"
  shows "x = a \<or> x \<in> reach h (set (Children (h ! a))) \<or> x \<in> reach h (set rest)"
  using assms
proof (induction rule: reach.induct)
  case (start x)
  then show ?case by (auto intro: reach.start)
next
  case (child x c)
  then show ?case by (auto intro: reach.start reach.child)
qed

lemma reach_valid:
  assumes "closed_heap h" and "\<forall>a\<in>S. a < length h" and "x \<in> reach h S"
  shows "x < length h"
  using assms(3)
proof (induction rule: reach.induct)
  case (start a)
  with assms(2) show ?case by simp
next
  case (child a c)
  with assms(1) show ?case by (simp add: closed_heap_def)
qed

lemma reach_mono: "x \<in> reach h S \<Longrightarrow> S \<subseteq> T \<Longrightarrow> x \<in> reach h T"
  by (induction rule: reach.induct) (auto intro: reach.start reach.child)

lemma reach_children:
  assumes "a \<in> reach h S" and "x \<in> reach h (set (Children (h ! a)))"
  shows "x \<in> reach h S"
  using assms(2)
proof (induction rule: reach.induct)
  case (start c)
  with assms(1) show ?case by (rule reach.child)
next
  case (child b c)
  from child.IH child.hyps(2) show ?case by (rule reach.child)
qed

subsection \<open>Depth\<close>

lemma depth_below_mono: "depth_below f h a \<Longrightarrow> f \<le> f' \<Longrightarrow> depth_below f' h a"
proof (induction f arbitrary: a f')
  case 0
  then show ?case by simp
next
  case (Suc f)
  then obtain g where g: "f' = Suc g" and "f \<le> g" by (cases f') auto
  with Suc show ?case by auto
qed

lemma depth_below_reach:
  assumes "b \<in> reach h S" and "\<forall>s\<in>S. depth_below f h s"
  shows "\<exists>f' \<le> f. depth_below f' h b"
  using assms(1)
proof (induction rule: reach.induct)
  case (start a)
  with assms(2) show ?case by auto
next
  case (child a c)
  then obtain f' where f': "f' \<le> f" "depth_below f' h a" by auto
  then obtain g where g: "f' = Suc g" by (cases f') auto
  with f' child.hyps(2) have "depth_below g h c" by simp
  with g f' show ?case by (intro exI[of _ g]) simp
qed

lemma depth_below_acyclic: "depth_below f h a \<Longrightarrow> a \<notin> descendants h a"
proof (induction f arbitrary: a rule: less_induct)
  case (less f)
  show ?case
  proof
    assume d: "a \<in> descendants h a"
    from less.prems obtain g where g: "f = Suc g" by (cases f) auto
    with less.prems have "\<forall>s\<in>set (Children (h ! a)). depth_below g h s" by simp
    with d obtain f' where "f' \<le> g" "depth_below f' h a"
      unfolding descendants_def using depth_below_reach by blast
    with less.IH[of f' a] g d show False by simp
  qed
qed

lemma sort_returns_depth:
  "sort_Slice_spec srt \<Longrightarrow> sortChildren srt fuel h ns = Some r \<Longrightarrow>
     fuel \<noteq> 0 \<and> (\<forall>a\<in>set ns. depth_below (fuel - 1) h a)"
  "sort_Slice_spec srt \<Longrightarrow> sortEach srt fuel h ns = Some h'' \<Longrightarrow>
     \<forall>a\<in>set ns. depth_below fuel h a"
proof (induction srt fuel h ns and srt fuel h ns arbitrary: r and h''
    rule: sortChildren_sortEach.induct)
  case (1 srt h nodes)
  then show ?case by simp
next
  case (2 srt fuel h nodes)
  from "2.prems"(2) obtain h' where
    "sortEach srt fuel h (srt (\<lambda>i j. Node.Title (h ! i) < Node.Title (h ! j)) nodes) = Some h'"
    by (auto simp: Let_def split: option.splits)
  from "2.IH"[OF refl "2.prems"(1) this] srt_set[OF "2.prems"(1), of h nodes]
  show ?case by simp
next
  case (3 srt fuel h)
  then show ?case by simp
next
  case (4 srt fuel h node rest)
  from "4.prems"(2) obtain h1 cs where
    sc: "sortChildren srt fuel h (Children (h ! node)) = Some (h1, cs)"
    and se: "sortEach srt fuel (h1[node := (h1 ! node)\<lparr>Children := cs\<rparr>]) rest = Some h''"
    by (auto split: option.splits)
  from "4.IH"(1)[OF "4.prems"(1) sc]
  have f: "fuel \<noteq> 0" and kids: "\<forall>a\<in>set (Children (h ! node)). depth_below (fuel - 1) h a"
    by simp_all
  then obtain g where g: "fuel = Suc g" by (cases fuel) auto
  with kids have node: "depth_below fuel h node" by simp
  from sort_frame(1)[OF "4.prems"(1) sc]
  have s1: "same_shape h h1"
    and cs: "cs = srt (\<lambda>i j. Node.Title (h ! i) < Node.Title (h ! j)) (Children (h ! node))"
    by simp_all
  have "mset cs = mset (Children (h1 ! node))"
    unfolding cs using srt_mset[OF "4.prems"(1)] same_shape_mset[OF s1] by simp
  then have "same_shape h1 (h1[node := (h1 ! node)\<lparr>Children := cs\<rparr>])"
    by (rule same_shape_update)
  with s1 have s2: "same_shape h (h1[node := (h1 ! node)\<lparr>Children := cs\<rparr>])"
    by (rule same_shape_trans)
  from "4.IH"(2)[OF sc refl "4.prems"(1) se]
  have "\<forall>a\<in>set rest. depth_below fuel (h1[node := (h1 ! node)\<lparr>Children := cs\<rparr>]) a" .
  then have "\<forall>a\<in>set rest. depth_below fuel h a"
    by (simp add: same_shape_depth_below[OF s2])
  with node show ?case by simp
qed

lemma depth_sort_returns:
  "sort_Slice_spec srt \<Longrightarrow> fuel \<noteq> 0 \<Longrightarrow> (\<forall>a\<in>set ns. depth_below (fuel - 1) h a) \<Longrightarrow>
     sortChildren srt fuel h ns \<noteq> None"
  "sort_Slice_spec srt \<Longrightarrow> (\<forall>a\<in>set ns. depth_below fuel h a) \<Longrightarrow>
     sortEach srt fuel h ns \<noteq> None"
proof (induction srt fuel h ns and srt fuel h ns rule: sortChildren_sortEach.induct)
  case (1 srt h nodes)
  then show ?case by simp
next
  case (2 srt fuel h nodes)
  from "2.prems" srt_set[OF "2.prems"(1), of h nodes]
  have "\<forall>a\<in>set (srt (\<lambda>i j. Node.Title (h ! i) < Node.Title (h ! j)) nodes). depth_below fuel h a"
    by simp
  from "2.IH"[OF refl "2.prems"(1) this] show ?case
    by (auto simp: Let_def split: option.splits)
next
  case (3 srt fuel h)
  then show ?case by simp
next
  case (4 srt fuel h node rest)
  from "4.prems"(2) have node: "depth_below fuel h node" and rest: "\<forall>a\<in>set rest. depth_below fuel h a"
    by simp_all
  from node obtain g where g: "fuel = Suc g" by (cases fuel) auto
  with node have "\<forall>a\<in>set (Children (h ! node)). depth_below (fuel - 1) h a" by simp
  from "4.IH"(1)[OF "4.prems"(1) _ this] g
  obtain h1 cs where sc: "sortChildren srt fuel h (Children (h ! node)) = Some (h1, cs)"
    by auto
  from sort_frame(1)[OF "4.prems"(1) sc]
  have s1: "same_shape h h1"
    and cs: "cs = srt (\<lambda>i j. Node.Title (h ! i) < Node.Title (h ! j)) (Children (h ! node))"
    by simp_all
  have "mset cs = mset (Children (h1 ! node))"
    unfolding cs using srt_mset[OF "4.prems"(1)] same_shape_mset[OF s1] by simp
  then have "same_shape h1 (h1[node := (h1 ! node)\<lparr>Children := cs\<rparr>])"
    by (rule same_shape_update)
  with s1 have s2: "same_shape h (h1[node := (h1 ! node)\<lparr>Children := cs\<rparr>])"
    by (rule same_shape_trans)
  from rest have "\<forall>a\<in>set rest. depth_below fuel (h1[node := (h1 ! node)\<lparr>Children := cs\<rparr>]) a"
    by (simp add: same_shape_depth_below[OF s2])
  from "4.IH"(2)[OF sc refl "4.prems"(1) this] sc show ?case by simp
qed

subsection \<open>Sortedness\<close>

lemma sort_sorted:
  "sort_Slice_spec srt \<Longrightarrow> sortChildren srt fuel h ns = Some (h', ns') \<Longrightarrow>
     closed_heap h \<Longrightarrow> (\<forall>a\<in>set ns. a < length h) \<Longrightarrow>
     (\<forall>b. sorted_by_title h (Children (h ! b)) \<longrightarrow> sorted_by_title h' (Children (h' ! b))) \<and>
     (\<forall>a\<in>reach h (set ns). sorted_by_title h' (Children (h' ! a)))"
  "sort_Slice_spec srt \<Longrightarrow> sortEach srt fuel h ns = Some h'' \<Longrightarrow>
     closed_heap h \<Longrightarrow> (\<forall>a\<in>set ns. a < length h) \<Longrightarrow>
     (\<forall>b. sorted_by_title h (Children (h ! b)) \<longrightarrow> sorted_by_title h'' (Children (h'' ! b))) \<and>
     (\<forall>a\<in>reach h (set ns). sorted_by_title h'' (Children (h'' ! a)))"
proof (induction srt fuel h ns and srt fuel h ns arbitrary: h' ns' and h''
    rule: sortChildren_sortEach.induct)
  case (1 srt h nodes)
  then show ?case by simp
next
  case (2 srt fuel h nodes)
  let ?ns = "srt (\<lambda>i j. Node.Title (h ! i) < Node.Title (h ! j)) nodes"
  from "2.prems"(2) have se: "sortEach srt fuel h ?ns = Some h'"
    by (auto simp: Let_def split: option.splits)
  have set: "set ?ns = set nodes" by (rule srt_set[OF "2.prems"(1)])
  with "2.prems"(4) have "\<forall>a\<in>set ?ns. a < length h" by simp
  from "2.IH"[OF refl "2.prems"(1) se "2.prems"(3) this] set show ?case by simp
next
  case (3 srt fuel h)
  then have "h'' = h" by simp
  moreover have "reach h (set []) = {}"
  proof -
    have "x \<notin> reach h {}" for x
    proof
      assume "x \<in> reach h {}"
      then show False by (induction rule: reach.induct) auto
    qed
    then show ?thesis by auto
  qed
  ultimately show ?case by simp
next
  case (4 srt fuel h node rest)
  from "4.prems"(2) obtain h1 cs where
    sc: "sortChildren srt fuel h (Children (h ! node)) = Some (h1, cs)"
    and se: "sortEach srt fuel (h1[node := (h1 ! node)\<lparr>Children := cs\<rparr>]) rest = Some h''"
    by (auto split: option.splits)
  let ?h2 = "h1[node := (h1 ! node)\<lparr>Children := cs\<rparr>]"
  from "4.prems"(4) have nv: "node < length h" and rv: "\<forall>a\<in>set rest. a < length h" by simp_all
  from nv "4.prems"(3) have kv: "\<forall>a\<in>set (Children (h ! node)). a < length h"
    by (simp add: closed_heap_def)
  from "4.IH"(1)[OF "4.prems"(1) sc "4.prems"(3) kv]
  have keep1: "\<And>b. sorted_by_title h (Children (h ! b)) \<Longrightarrow> sorted_by_title h1 (Children (h1 ! b))"
    and sub1: "\<And>a. a \<in> reach h (set (Children (h ! node))) \<Longrightarrow> sorted_by_title h1 (Children (h1 ! a))"
    by simp_all
  from sort_frame(1)[OF "4.prems"(1) sc]
  have s1: "same_shape h h1"
    and cs: "cs = srt (\<lambda>i j. Node.Title (h ! i) < Node.Title (h ! j)) (Children (h ! node))"
    by simp_all
  have "mset cs = mset (Children (h1 ! node))"
    unfolding cs using srt_mset[OF "4.prems"(1)] same_shape_mset[OF s1] by simp
  then have s12: "same_shape h1 ?h2"
    by (rule same_shape_update)
  with s1 have s2: "same_shape h ?h2"
    by (rule same_shape_trans)
  have "sorted_by_title h cs"
    unfolding cs by (rule srt_sorted[OF "4.prems"(1)])
  then have cs_sorted: "sorted_by_title ?h2 cs"
    by (simp add: same_shape_sorted_by_title[OF s2])
  have len1: "length h1 = length h" by (rule same_shape_length[OF s1])
  have keep2: "sorted_by_title ?h2 (Children (?h2 ! b))" if "sorted_by_title h1 (Children (h1 ! b))" for b
  proof (cases "b = node")
    case True
    with nv len1 cs_sorted show ?thesis by simp
  next
    case False
    with that show ?thesis by (simp add: same_shape_sorted_by_title[OF s12])
  qed
  have node_sorted: "sorted_by_title ?h2 (Children (?h2 ! node))"
    using nv len1 cs_sorted by simp
  have c2: "closed_heap ?h2" by (rule same_shape_closed[OF s2 "4.prems"(3)])
  have rv2: "\<forall>a\<in>set rest. a < length ?h2" using rv len1 by simp
  from "4.IH"(2)[OF sc refl "4.prems"(1) se c2 rv2]
  have keep3: "\<And>b. sorted_by_title ?h2 (Children (?h2 ! b)) \<Longrightarrow> sorted_by_title h'' (Children (h'' ! b))"
    and sub3: "\<And>a. a \<in> reach ?h2 (set rest) \<Longrightarrow> sorted_by_title h'' (Children (h'' ! a))"
    by simp_all
  have "sorted_by_title h'' (Children (h'' ! a))" if "a \<in> reach h (set (node # rest))" for a
  proof -
    from reach_Cons_cases[OF that]
    consider "a = node" | "a \<in> reach h (set (Children (h ! node)))" | "a \<in> reach h (set rest)"
      by blast
    then show ?thesis
    proof cases
      case 1
      with node_sorted keep3 show ?thesis by simp
    next
      case 2
      from keep3[OF keep2[OF sub1[OF 2]]] show ?thesis .
    next
      case 3
      then have "a \<in> reach ?h2 (set rest)" by (simp add: same_shape_reach[OF s2])
      then show ?thesis by (rule sub3)
    qed
  qed
  moreover have "sorted_by_title h'' (Children (h'' ! b))" if "sorted_by_title h (Children (h ! b))" for b
    using keep3[OF keep2[OF keep1[OF that]]] .
  ultimately show ?case by simp
qed

subsection \<open>The heap after the two loops\<close>

lemma BuildHierarchy_Some:
  assumes "BuildHierarchy srt fuel files = Some (t, h, w)"
  obtains h0 nodes h1 roots where
    "registerNodes files ([], Map.empty) = (h0, nodes)"
    "linkNodes nodes files (h0, [], []) = (h1, roots, w)"
    "sortChildren srt fuel h1 roots = Some (h, Nodes t)"
proof -
  obtain h0 nodes where r: "registerNodes files ([], Map.empty) = (h0, nodes)" by fastforce
  obtain h1 roots w1 where l: "linkNodes nodes files (h0, [], []) = (h1, roots, w1)"
    by (metis prod_cases3)
  from assms r l have "sortChildren srt fuel h1 roots = Some (h, Nodes t)" and "w1 = w"
    by (auto simp: BuildHierarchy_def split: option.splits)
  with r l that show ?thesis by blast
qed

lemma BuildHierarchy_eq:
  assumes "registerNodes files ([], Map.empty) = (h0, nodes)"
    and "linkNodes nodes files (h0, [], []) = (h1, roots, w)"
  shows "BuildHierarchy srt fuel files =
           (case sortChildren srt fuel h1 roots of
              None \<Rightarrow> None
            | Some (h2, roots') \<Rightarrow> Some (\<lparr>Nodes = roots'\<rparr>, h2, w))"
  using assms by (simp add: BuildHierarchy_def)

lemma linked_facts:
  assumes r: "registerNodes files ([], Map.empty) = (h0, nodes)"
    and l: "linkNodes nodes files (h0, [], []) = (h1, roots, w)"
  shows "length h1 = length files"
    and "roots = rootsOf nodes files"
    and "w = warningsOf nodes files"
    and "j < length files \<Longrightarrow> Children (h1 ! j) = childrenOf nodes files j"
    and "j < length files \<Longrightarrow> node_info (h1 ! j) = newNode (files ! j)"
proof -
  have h0: "h0 = map newNode files" by (rule registerNodes_Some(1)[OF r])
  from linkNodes_result[OF l]
  have res: "roots = [] @ rootsOf nodes files" "w = [] @ warningsOf nodes files"
    "length h1 = length h0" "\<And>j. node_info (h1 ! j) = node_info (h0 ! j)"
    "\<And>j. j < length h0 \<Longrightarrow> Children (h1 ! j) = Children (h0 ! j) @ childrenOf nodes files j"
    by simp_all
  show "length h1 = length files" using res(3) h0 by simp
  show "roots = rootsOf nodes files" using res(1) by simp
  show "w = warningsOf nodes files" using res(2) by simp
  show "j < length files \<Longrightarrow> Children (h1 ! j) = childrenOf nodes files j"
    using res(5)[of j] h0 by (simp add: newNode_def)
  show "j < length files \<Longrightarrow> node_info (h1 ! j) = newNode (files ! j)"
    using res(4)[of j] h0 by simp
qed

lemma lookup_valid:
  assumes r: "registerNodes files ([], Map.empty) = (h0, nodes)" and "f \<in> set files"
  shows "the (nodes (StandardsFile.Path f)) < length files"
    and "StandardsFile.Path (files ! the (nodes (StandardsFile.Path f))) = StandardsFile.Path f"
proof -
  from registerNodes_Some(4)[OF r assms(2)] obtain a where a: "nodes (StandardsFile.Path f) = Some a"
    by auto
  from registerNodes_Some(2)[OF r a] a
  show "the (nodes (StandardsFile.Path f)) < length files"
    and "StandardsFile.Path (files ! the (nodes (StandardsFile.Path f))) = StandardsFile.Path f"
    by simp_all
qed

lemma rootsOf_valid:
  assumes r: "registerNodes files ([], Map.empty) = (h0, nodes)" and "a \<in> set (rootsOf nodes files)"
  shows "a < length files"
  using assms(2) lookup_valid(1)[OF r] by (auto simp: rootsOf_def)

lemma childrenOf_valid:
  assumes r: "registerNodes files ([], Map.empty) = (h0, nodes)" and "a \<in> set (childrenOf nodes files j)"
  shows "a < length files"
  using assms(2) lookup_valid(1)[OF r] by (auto simp: childrenOf_def)

lemma linked_closed:
  assumes r: "registerNodes files ([], Map.empty) = (h0, nodes)"
    and l: "linkNodes nodes files (h0, [], []) = (h1, roots, w)"
  shows "closed_heap h1" and "\<forall>a\<in>set roots. a < length h1"
proof -
  show "closed_heap h1"
    unfolding closed_heap_def linked_facts(1)[OF r l]
    using linked_facts(4)[OF r l] childrenOf_valid[OF r] by auto
  show "\<forall>a\<in>set roots. a < length h1"
    unfolding linked_facts(1)[OF r l] linked_facts(2)[OF r l]
    using rootsOf_valid[OF r] by auto
qed

subsection \<open>Sortedness of the result\<close>

lemma BuildHierarchy_sorted:
  assumes "sort_Slice_spec srt"
    and "BuildHierarchy srt fuel files = Some (t, h, w)"
  shows "sorted_by_title h (Nodes t)"
    and "\<forall>a\<in>reach h (set (Nodes t)). sorted_by_title h (Children (h ! a))"
proof -
  from assms(2) obtain h0 nodes h1 roots where
    r: "registerNodes files ([], Map.empty) = (h0, nodes)"
    and l: "linkNodes nodes files (h0, [], []) = (h1, roots, w)"
    and s: "sortChildren srt fuel h1 roots = Some (h, Nodes t)"
    by (rule BuildHierarchy_Some)
  from sort_frame(1)[OF assms(1) s]
  have sh: "same_shape h1 h"
    and n: "Nodes t = srt (\<lambda>i j. Node.Title (h1 ! i) < Node.Title (h1 ! j)) roots"
    by simp_all
  have "sorted_by_title h1 (Nodes t)" unfolding n by (rule srt_sorted[OF assms(1)])
  then show "sorted_by_title h (Nodes t)" by (simp add: same_shape_sorted_by_title[OF sh])
  have "set (Nodes t) = set roots" unfolding n by (rule srt_set[OF assms(1)])
  then have "reach h (set (Nodes t)) = reach h1 (set roots)"
    by (simp add: same_shape_reach[OF sh])
  with sort_sorted(1)[OF assms(1) s linked_closed[OF r l]]
  show "\<forall>a\<in>reach h (set (Nodes t)). sorted_by_title h (Children (h ! a))" by simp
qed

subsection \<open>Acyclicity of what the roots reach\<close>

lemma same_shape_descendants:
  assumes "same_shape h h'"
  shows "descendants h' a = descendants h a"
  by (simp add: descendants_def same_shape_reach[OF assms] same_shape_set[OF assms])

lemma BuildHierarchy_acyclic:
  assumes "sort_Slice_spec srt"
    and "BuildHierarchy srt fuel files = Some (t, h, w)"
    and "a \<in> reach h (set (Nodes t))"
  shows "a \<notin> descendants h a"
proof -
  from assms(2) obtain h0 nodes h1 roots where
    r: "registerNodes files ([], Map.empty) = (h0, nodes)"
    and l: "linkNodes nodes files (h0, [], []) = (h1, roots, w)"
    and s: "sortChildren srt fuel h1 roots = Some (h, Nodes t)"
    by (rule BuildHierarchy_Some)
  from sort_frame(1)[OF assms(1) s]
  have sh: "same_shape h1 h"
    and n: "Nodes t = srt (\<lambda>i j. Node.Title (h1 ! i) < Node.Title (h1 ! j)) roots"
    by simp_all
  have "set (Nodes t) = set roots" unfolding n by (rule srt_set[OF assms(1)])
  with assms(3) have a: "a \<in> reach h1 (set roots)"
    by (simp add: same_shape_reach[OF sh])
  from sort_returns_depth(1)[OF assms(1) s]
  have "\<forall>s\<in>set roots. depth_below (fuel - 1) h1 s" by simp
  from depth_below_reach[OF a this] obtain f' where "depth_below f' h1 a" by blast
  then have "a \<notin> descendants h1 a" by (rule depth_below_acyclic)
  then show ?thesis by (simp add: same_shape_descendants[OF sh])
qed

subsection \<open>Distinct paths: the links form a forest and sortChildren returns\<close>

lemma level_unique: "level par k a \<Longrightarrow> level par k' a \<Longrightarrow> k = k'"
proof (induction k arbitrary: k' a)
  case 0
  then show ?case by (cases k') (auto split: option.splits)
next
  case (Suc k)
  then show ?case by (cases k') (auto split: option.splits)
qed

lemma level_chain:
  assumes ran: "\<And>c j. par c = Some j \<Longrightarrow> j < n"
  shows "level par k a \<Longrightarrow> a < n \<Longrightarrow>
     \<exists>S. S \<subseteq> {..<n} \<and> card S = Suc k \<and> (\<forall>b\<in>S. \<exists>k'\<le>k. level par k' b)"
proof (induction k arbitrary: a)
  case 0
  then show ?case by (intro exI[of _ "{a}"]) auto
next
  case (Suc k)
  from Suc.prems(1) obtain j where j: "par a = Some j" and lj: "level par k j"
    by (auto split: option.splits)
  from ran[OF j] Suc.IH[OF lj] obtain S where
    S: "S \<subseteq> {..<n}" "card S = Suc k" "\<forall>b\<in>S. \<exists>k'\<le>k. level par k' b" by blast
  have "a \<notin> S"
  proof
    assume "a \<in> S"
    with S(3) obtain k' where "k' \<le> k" "level par k' a" by blast
    with level_unique[OF Suc.prems(1) this(2)] show False by simp
  qed
  moreover have "finite S" using S(1) by (rule finite_subset) simp
  ultimately have "card (insert a S) = Suc (Suc k)" using S(2) by simp
  moreover have "insert a S \<subseteq> {..<n}" using S(1) Suc.prems(2) by simp
  moreover have "\<forall>b\<in>insert a S. \<exists>k'\<le>Suc k. level par k' b"
    using S(3) Suc.prems(1) by (metis insert_iff le_Suc_eq order_refl)
  ultimately show ?case by blast
qed

lemma level_bound:
  assumes "\<And>c j. par c = Some j \<Longrightarrow> j < n" and "level par k a" and "a < n"
  shows "k < n"
proof -
  have "\<exists>S. S \<subseteq> {..<n} \<and> card S = Suc k \<and> (\<forall>b\<in>S. \<exists>k'\<le>k. level par k' b)"
    using assms(1) assms(2) assms(3) by (rule level_chain)
  then obtain S where S: "S \<subseteq> {..<n}" and c: "card S = Suc k"
    by (elim exE conjE)
  have "finite {..<n}" by simp
  from card_mono[OF this S] c show ?thesis by simp
qed

lemma level_depth_below:
  assumes ran: "\<And>c j. par c = Some j \<Longrightarrow> j < n"
    and kids: "\<And>a c. a < n \<Longrightarrow> c \<in> set (Children (h ! a)) \<Longrightarrow> c < n \<and> par c = Some a"
  shows "level par k a \<Longrightarrow> a < n \<Longrightarrow> k + m = n \<Longrightarrow> depth_below m h a"
proof (induction m arbitrary: k a)
  case 0
  with level_bound[OF ran "0.prems"(1,2)] show ?case by simp
next
  case (Suc m)
  have "depth_below m h c" if "c \<in> set (Children (h ! a))" for c
  proof -
    from kids[OF Suc.prems(2) that] have c: "c < n" "par c = Some a" by simp_all
    with Suc.prems(1) have "level par (Suc k) c" by simp
    from Suc.IH[OF this c(1)] Suc.prems(3) show ?thesis by simp
  qed
  then show ?case by simp
qed

lemma distinct_paths_inj:
  assumes "distinct (map StandardsFile.Path files)" "f \<in> set files" "g \<in> set files"
    "StandardsFile.Path f = StandardsFile.Path g"
  shows "f = g"
  using assms by (meson distinct_map inj_onD)

lemma lookup_distinct:
  assumes r: "registerNodes files ([], Map.empty) = (h0, nodes)"
    and d: "distinct (map StandardsFile.Path files)" and "f \<in> set files"
  shows "files ! the (nodes (StandardsFile.Path f)) = f"
proof -
  from assms(3) obtain i where i: "i < length files" "files ! i = f"
    by (auto simp: in_set_conv_nth)
  from registerNodes_distinct[OF r d i(1)] i(2) show ?thesis by simp
qed

lemma linked_parent_ptr:
  assumes r: "registerNodes files ([], Map.empty) = (h0, nodes)"
    and l: "linkNodes nodes files (h0, [], []) = (h1, roots, w)"
    and d: "distinct (map StandardsFile.Path files)"
  shows "parent_ptr nodes files c = Some j \<Longrightarrow> j < length files"
    and "a < length files \<Longrightarrow> c \<in> set (Children (h1 ! a)) \<Longrightarrow>
           c < length files \<and> parent_ptr nodes files c = Some a"
    and "c \<in> set roots \<Longrightarrow> c < length files \<and> parent_ptr nodes files c = None"
proof -
  show "parent_ptr nodes files c = Some j \<Longrightarrow> j < length files"
    using registerNodes_Some(2)[OF r] by (auto simp: parent_ptr_def split: option.splits)
  show "c < length files \<and> parent_ptr nodes files c = Some a"
    if a: "a < length files" and c: "c \<in> set (Children (h1 ! a))"
  proof -
    from c linked_facts(4)[OF r l a] obtain f where
      f: "f \<in> set files" "c = the (nodes (StandardsFile.Path f))"
      and p: "(case StandardsHeader.Parent (Header f) of None \<Rightarrow> False | Some pp \<Rightarrow> nodes pp = Some a)"
      by (auto simp: childrenOf_def)
    from lookup_distinct[OF r d f(1)] f(2) have "files ! c = f" by simp
    with p lookup_valid(1)[OF r f(1)] f(2) show ?thesis
      by (auto simp: parent_ptr_def split: option.splits)
  qed
  show "c < length files \<and> parent_ptr nodes files c = None" if c: "c \<in> set roots"
  proof -
    from c linked_facts(2)[OF r l] obtain f where
      f: "f \<in> set files" "c = the (nodes (StandardsFile.Path f))"
      and p: "StandardsHeader.Parent (Header f) = None"
      by (auto simp: rootsOf_def)
    from lookup_distinct[OF r d f(1)] f(2) have "files ! c = f" by simp
    with p lookup_valid(1)[OF r f(1)] f(2) show ?thesis
      by (auto simp: parent_ptr_def)
  qed
qed

lemma linked_roots_depth:
  assumes r: "registerNodes files ([], Map.empty) = (h0, nodes)"
    and l: "linkNodes nodes files (h0, [], []) = (h1, roots, w)"
    and d: "distinct (map StandardsFile.Path files)"
    and c: "c \<in> set roots"
  shows "depth_below (length files) h1 c"
proof -
  from linked_parent_ptr(3)[OF r l d c]
  have "level (parent_ptr nodes files) 0 c" and "c < length files" by simp_all
  from level_depth_below[of "parent_ptr nodes files" "length files" h1 0 c "length files",
      OF linked_parent_ptr(1)[OF r l d] linked_parent_ptr(2)[OF r l d] this]
  show ?thesis by simp
qed

lemma BuildHierarchy_returns:
  assumes "sort_Slice_spec srt" and "distinct (map StandardsFile.Path files)"
    and "length files < fuel"
  shows "\<exists>res. BuildHierarchy srt fuel files = Some res"
proof -
  obtain h0 nodes where r: "registerNodes files ([], Map.empty) = (h0, nodes)" by fastforce
  obtain h1 roots w where l: "linkNodes nodes files (h0, [], []) = (h1, roots, w)"
    by (metis prod_cases3)
  have "depth_below (fuel - 1) h1 a" if "a \<in> set roots" for a
    using depth_below_mono[OF linked_roots_depth[OF r l assms(2) that], of "fuel - 1"] assms(3)
    by simp
  then have "\<forall>a\<in>set roots. depth_below (fuel - 1) h1 a" by blast
  from depth_sort_returns(1)[OF assms(1) _ this] assms(3)
  have "sortChildren srt fuel h1 roots \<noteq> None" by simp
  then show ?thesis unfolding BuildHierarchy_eq[OF r l] by (auto split: option.splits)
qed

subsection \<open>More fuel does not change the result\<close>

lemma sort_fuel_mono:
  "sortChildren srt fuel h ns = Some r \<Longrightarrow> fuel \<le> fuel' \<Longrightarrow> sortChildren srt fuel' h ns = Some r"
  "sortEach srt fuel h ns = Some h'' \<Longrightarrow> fuel \<le> fuel' \<Longrightarrow> sortEach srt fuel' h ns = Some h''"
proof (induction srt fuel h ns and srt fuel h ns arbitrary: r fuel' and h'' fuel'
    rule: sortChildren_sortEach.induct)
  case (1 srt h nodes)
  then show ?case by simp
next
  case (2 srt fuel h nodes)
  let ?ns = "srt (\<lambda>i j. Node.Title (h ! i) < Node.Title (h ! j)) nodes"
  from "2.prems"(2) obtain g where g: "fuel' = Suc g" and le: "fuel \<le> g" by (cases fuel') auto
  from "2.prems"(1) obtain h' where se: "sortEach srt fuel h ?ns = Some h'" and r: "r = (h', ?ns)"
    by (auto simp: Let_def split: option.splits)
  from "2.IH"[OF refl se le] have "sortEach srt g h ?ns = Some h'" .
  with g r show ?case by (simp add: Let_def)
next
  case (3 srt fuel h)
  then show ?case by simp
next
  case (4 srt fuel h node rest)
  from "4.prems"(1) obtain h1 cs where
    sc: "sortChildren srt fuel h (Children (h ! node)) = Some (h1, cs)"
    and se: "sortEach srt fuel (h1[node := (h1 ! node)\<lparr>Children := cs\<rparr>]) rest = Some h''"
    by (auto split: option.splits)
  from "4.IH"(1)[OF sc "4.prems"(2)]
  have sc': "sortChildren srt fuel' h (Children (h ! node)) = Some (h1, cs)" .
  from "4.IH"(2)[OF sc refl se "4.prems"(2)]
  have "sortEach srt fuel' (h1[node := (h1 ! node)\<lparr>Children := cs\<rparr>]) rest = Some h''" .
  with sc' show ?case by simp
qed

lemma BuildHierarchy_fuel_mono:
  assumes "BuildHierarchy srt fuel files = Some res" and "fuel \<le> fuel'"
  shows "BuildHierarchy srt fuel' files = Some res"
proof -
  obtain t h w where res: "res = (t, h, w)" by (cases res) auto
  from assms(1) obtain h0 nodes h1 roots where
    r: "registerNodes files ([], Map.empty) = (h0, nodes)"
    and l: "linkNodes nodes files (h0, [], []) = (h1, roots, w)"
    and s: "sortChildren srt fuel h1 roots = Some (h, Nodes t)"
    unfolding res by (rule BuildHierarchy_Some)
  from sort_fuel_mono(1)[OF s assms(2)] show ?thesis
    unfolding BuildHierarchy_eq[OF r l] res by simp
qed

subsection \<open>Paths of the linked nodes\<close>

lemma linked_path:
  assumes r: "registerNodes files ([], Map.empty) = (h0, nodes)"
    and l: "linkNodes nodes files (h0, [], []) = (h1, roots, w)"
    and f: "f \<in> set files"
  shows "Node.Path (h1 ! the (nodes (StandardsFile.Path f))) = StandardsFile.Path f"
proof -
  let ?a = "the (nodes (StandardsFile.Path f))"
  from lookup_valid[OF r f] have a: "?a < length files"
    and p: "StandardsFile.Path (files ! ?a) = StandardsFile.Path f" by simp_all
  from linked_facts(5)[OF r l a] have "Node.Path (node_info (h1 ! ?a)) = Node.Path (newNode (files ! ?a))"
    by simp
  with p show ?thesis by (simp add: newNode_def)
qed

lemma reach_cases:
  assumes "a \<in> reach h S"
  shows "a \<in> S \<or> (\<exists>b\<in>reach h S. a \<in> set (Children (h ! b)))"
  using assms by (cases rule: reach.cases) auto

lemma srt_Nil:
  assumes "sort_Slice_spec srt"
  shows "srt (\<lambda>i j. Node.Title (h ! i) < Node.Title (h ! j)) [] = []"
  using srt_mset[OF assms, of h "[]"] by simp

lemma srt_same_pair:
  assumes "sort_Slice_spec srt"
  shows "srt (\<lambda>i j. Node.Title (h ! i) < Node.Title (h ! j)) [a, a] = [a, a]"
proof -
  let ?ys = "srt (\<lambda>i j. Node.Title (h ! i) < Node.Title (h ! j)) [a, a]"
  have m: "mset ?ys = mset [a, a]" by (rule srt_mset[OF assms])
  from mset_eq_length[OF m] have "length ?ys = Suc (Suc 0)" by simp
  then obtain x y where xy: "?ys = [x, y]"
    by (auto simp: length_Suc_conv)
  from mset_eq_setD[OF m] have "set ?ys = {a}" by simp
  with xy show ?thesis by auto
qed

lemma sortChildren_leaf:
  assumes "sort_Slice_spec srt"
  shows "sortChildren srt (Suc fuel) h [] = Some (h, [])"
  by (simp add: srt_Nil[OF assms])

lemma BuildHierarchy_orphan_facts:
  assumes spec: "sort_Slice_spec srt"
    and d: "distinct (map StandardsFile.Path files)"
    and rin: "r \<in> set files"
    and rp: "StandardsHeader.Parent (Header r) = Some pp"
    and pp: "pp \<notin> StandardsFile.Path ` set files"
    and b: "BuildHierarchy srt fuel files = Some (t, h, w)"
  shows "\<forall>a\<in>set (Nodes t). Node.Path (h ! a) \<noteq> StandardsFile.Path r"
    and "\<forall>b<length h. \<forall>c\<in>set (Children (h ! b)). Node.Path (h ! c) \<noteq> StandardsFile.Path r"
    and "\<forall>a\<in>reach h (set (Nodes t)). Node.Path (h ! a) \<noteq> StandardsFile.Path r"
    and "(StandardsFile.Path r, pp) \<in> set w"
proof -
  from b obtain h0 nodes h1 roots where
    r: "registerNodes files ([], Map.empty) = (h0, nodes)"
    and l: "linkNodes nodes files (h0, [], []) = (h1, roots, w)"
    and s: "sortChildren srt fuel h1 roots = Some (h, Nodes t)"
    by (rule BuildHierarchy_Some)
  from sort_frame(1)[OF spec s]
  have sh: "same_shape h1 h"
    and n: "Nodes t = srt (\<lambda>i j. Node.Title (h1 ! i) < Node.Title (h1 ! j)) roots"
    by simp_all
  have sr: "set (Nodes t) = set roots" unfolding n by (rule srt_set[OF spec])
  have len: "length h = length files"
    using same_shape_length[OF sh] linked_facts(1)[OF r l] by simp
  from registerNodes_Some(3)[OF r, of pp] pp have none: "nodes pp = None" by simp
  show roots_ok: "\<forall>a\<in>set (Nodes t). Node.Path (h ! a) \<noteq> StandardsFile.Path r"
  proof
    fix a assume "a \<in> set (Nodes t)"
    with sr linked_facts(2)[OF r l] obtain f where
      f: "f \<in> set files" "a = the (nodes (StandardsFile.Path f))"
      "StandardsHeader.Parent (Header f) = None"
      by (auto simp: rootsOf_def)
    have "Node.Path (h ! a) = StandardsFile.Path f"
      using linked_path[OF r l f(1)] f(2) same_shape_path[OF sh, of a] by simp
    moreover have "StandardsFile.Path f \<noteq> StandardsFile.Path r"
      using distinct_paths_inj[OF d f(1) rin] f(3) rp by auto
    ultimately show "Node.Path (h ! a) \<noteq> StandardsFile.Path r" by simp
  qed
  show kids_ok: "\<forall>b<length h. \<forall>c\<in>set (Children (h ! b)). Node.Path (h ! c) \<noteq> StandardsFile.Path r"
  proof (intro allI impI ballI)
    fix b c assume b: "b < length h" and c: "c \<in> set (Children (h ! b))"
    from c same_shape_set[OF sh, of b] have "c \<in> set (Children (h1 ! b))" by simp
    with linked_facts(4)[OF r l, of b] b len obtain f where
      f: "f \<in> set files" "c = the (nodes (StandardsFile.Path f))"
      and p: "(case StandardsHeader.Parent (Header f) of None \<Rightarrow> False | Some q \<Rightarrow> nodes q = Some b)"
      by (auto simp: childrenOf_def)
    have "Node.Path (h ! c) = StandardsFile.Path f"
      using linked_path[OF r l f(1)] f(2) same_shape_path[OF sh, of c] by simp
    moreover have "StandardsFile.Path f \<noteq> StandardsFile.Path r"
    proof
      assume "StandardsFile.Path f = StandardsFile.Path r"
      from distinct_paths_inj[OF d f(1) rin this] have "f = r" .
      with p rp none show False by simp
    qed
    ultimately show "Node.Path (h ! c) \<noteq> StandardsFile.Path r" by simp
  qed
  have closed: "closed_heap h" by (rule same_shape_closed[OF sh linked_closed(1)[OF r l]])
  have valid: "\<forall>a\<in>set (Nodes t). a < length h"
    using linked_closed(2)[OF r l] sr same_shape_length[OF sh] by simp
  show "\<forall>a\<in>reach h (set (Nodes t)). Node.Path (h ! a) \<noteq> StandardsFile.Path r"
  proof
    fix a assume a: "a \<in> reach h (set (Nodes t))"
    from reach_cases[OF a] show "Node.Path (h ! a) \<noteq> StandardsFile.Path r"
    proof
      assume "a \<in> set (Nodes t)"
      with roots_ok show ?thesis by simp
    next
      assume "\<exists>b\<in>reach h (set (Nodes t)). a \<in> set (Children (h ! b))"
      then obtain b where b: "b \<in> reach h (set (Nodes t))" "a \<in> set (Children (h ! b))" by blast
      from reach_valid[OF closed valid b(1)] have "b < length h" .
      with kids_ok b(2) show ?thesis by simp
    qed
  qed
  show "(StandardsFile.Path r, pp) \<in> set w"
    unfolding linked_facts(3)[OF r l] warningsOf_def using rin rp none by force
qed

lemma sortEach_leaf:
  assumes spec: "sort_Slice_spec srt" and kids: "Children (h ! a) = []"
  shows "sortEach srt (Suc fuel) h (a # rest) = sortEach srt (Suc fuel) h rest"
proof -
  have sc: "sortChildren srt (Suc fuel) h (Children (h ! a)) = Some (h, [])"
    by (simp only: kids sortChildren_leaf[OF spec])
  have "(h ! a)\<lparr>Children := []\<rparr> = h ! a"
    using kids by (cases "h ! a") simp
  then have upd: "h[a := (h ! a)\<lparr>Children := []\<rparr>] = h"
    by (simp only: list_update_id)
  show ?thesis
    by (simp only: sortEach.simps(2) sc option.case prod.case upd)
qed

lemma BuildHierarchy_same_path_roots:
  assumes spec: "sort_Slice_spec srt"
    and p: "StandardsFile.Path r1 = StandardsFile.Path r2"
    and p1: "StandardsHeader.Parent (Header r1) = None"
    and p2: "StandardsHeader.Parent (Header r2) = None"
  shows "BuildHierarchy srt (Suc (Suc fuel)) [r1, r2]
           = Some (\<lparr>Nodes = [1, 1]\<rparr>, [newNode r1, newNode r2], [])"
proof -
  let ?h = "[newNode r1, newNode r2]"
  let ?nodes = "[StandardsFile.Path r2 \<mapsto> (1::nat)]"
  have r: "registerNodes [r1, r2] ([], Map.empty) = (?h, ?nodes)"
    using p by simp
  have l: "linkNodes ?nodes [r1, r2] (?h, [], []) = (?h, [1, 1], [])"
    using p p1 p2 by simp
  have kids: "Children (?h ! 1) = []" by (simp add: newNode_def)
  have each: "sortEach srt (Suc fuel) ?h [1, 1] = Some ?h"
    by (simp only: sortEach_leaf[OF spec kids] sortEach.simps(1))
  have "sortChildren srt (Suc (Suc fuel)) ?h [1, 1] = Some (?h, [1, 1])"
    by (simp only: sortChildren.simps(2) srt_same_pair[OF spec] Let_def each option.case)
  then show ?thesis by (simp only: BuildHierarchy_eq[OF r l] option.case prod.case)
qed

subsection \<open>A sorted sequence with distinct keys is determined by its elements\<close>

lemma filter_key_single:
  "distinct (map k zs) \<Longrightarrow> e \<in> set zs \<Longrightarrow> filter (\<lambda>x. k e = k x) zs = [e]"
proof (induction zs)
  case Nil
  then show ?case by simp
next
  case (Cons z zs)
  show ?case
  proof (cases "e = z")
    case True
    from Cons.prems(1) have "\<forall>x\<in>set zs. k z \<noteq> k x" by auto
    then have "filter (\<lambda>x. k z = k x) zs = []" by (simp add: filter_empty_conv)
    with True show ?thesis by simp
  next
    case False
    with Cons.prems have ez: "e \<in> set zs" by simp
    from Cons.prems(1) have "k z \<notin> k ` set zs" by simp
    with ez have "k e \<noteq> k z" by (metis imageI)
    with Cons ez show ?thesis by simp
  qed
qed

lemma sorted_unique_by_key:
  fixes k :: "'a \<Rightarrow> 'b::linorder"
  assumes "sorted (map k xs)" and "mset xs = mset ys" and "distinct (map k ys)"
  shows "sort_key k ys = xs"
proof (rule properties_for_sort_key)
  show "mset xs = mset ys" by (rule assms(2))
  show "sorted (map k xs)" by (rule assms(1))
  have "mset (map k xs) = mset (map k ys)" using assms(2) by simp
  from mset_eq_imp_distinct_iff[OF this] assms(3) have dx: "distinct (map k xs)" by simp
  fix e assume e: "e \<in> set xs"
  with mset_eq_setD[OF assms(2)] have "e \<in> set ys" by simp
  from filter_key_single[OF dx e] filter_key_single[OF assms(3) this]
  show "filter (\<lambda>x. k e = k x) xs = filter (\<lambda>x. k e = k x) ys" by simp
qed

lemma siblings_distinct_titles:
  assumes "sibling_titles_distinct files" and "distinct files"
  shows "distinct (map file_title (filter (\<lambda>c. StandardsHeader.Parent (Header c) = p) files))"
proof -
  have "inj_on file_title (set (filter (\<lambda>c. StandardsHeader.Parent (Header c) = p) files))"
    using assms(1) unfolding sibling_titles_distinct_def inj_on_def by auto
  with assms(2) show ?thesis by (simp add: distinct_map)
qed

lemma sort_key_filter_perm:
  assumes "mset files' = mset files"
    and "sibling_titles_distinct files" and "distinct files"
  shows "sort_key file_title (filter (\<lambda>c. StandardsHeader.Parent (Header c) = p) files')
       = sort_key file_title (filter (\<lambda>c. StandardsHeader.Parent (Header c) = p) files)"
proof (rule sorted_unique_by_key[symmetric])
  let ?P = "\<lambda>c. StandardsHeader.Parent (Header c) = p"
  show "sorted (map file_title (sort_key file_title (filter ?P files')))"
    by (rule sorted_sort_key)
  show "mset (sort_key file_title (filter ?P files')) = mset (filter ?P files)"
    using assms(1) by simp
  show "distinct (map file_title (filter ?P files))"
    by (rule siblings_distinct_titles[OF assms(2,3)])
qed

subsection \<open>The specification's forest does not depend on the order of the records\<close>

lemma canonNode_perm:
  assumes "mset files' = mset files"
    and "sibling_titles_distinct files" and "distinct files"
  shows "canonNode fuel files' r = canonNode fuel files r"
proof (induction fuel arbitrary: r)
  case 0
  show ?case by simp
next
  case (Suc fuel)
  have "canonNode fuel files' = canonNode fuel files" using Suc.IH by blast
  then show ?case
    by (simp add: sort_key_filter_perm[OF assms])
qed

lemma canonForest_perm:
  assumes "mset files' = mset files"
    and "sibling_titles_distinct files" and "distinct files"
  shows "canonForest fuel files' = canonForest fuel files"
proof -
  have "canonNode fuel files' = canonNode fuel files"
    using canonNode_perm[OF assms] by blast
  then show ?thesis
    by (simp add: canonForest_def sort_key_filter_perm[OF assms])
qed

subsection \<open>Values exist where the depth is bounded\<close>

lemma those_map_Some: "(\<forall>x\<in>set xs. f x \<noteq> None) \<Longrightarrow> those (map f xs) \<noteq> None"
  by (induction xs) (auto split: option.splits)

lemma depth_below_reify: "depth_below fuel h a \<Longrightarrow> reify fuel h a \<noteq> None"
proof (induction fuel arbitrary: a)
  case 0
  then show ?case by simp
next
  case (Suc fuel)
  then have "\<forall>c\<in>set (Children (h ! a)). reify fuel h c \<noteq> None" by simp
  from those_map_Some[of "Children (h ! a)" "reify fuel h", OF this] show ?case by simp
qed

subsection \<open>BuildHierarchy builds the specification's forest\<close>

lemma distinct_paths_files: "distinct (map StandardsFile.Path files) \<Longrightarrow> distinct files"
  by (simp add: distinct_map)

lemma linked_title:
  assumes r: "registerNodes files ([], Map.empty) = (h0, nodes)"
    and l: "linkNodes nodes files (h0, [], []) = (h1, roots, w)"
    and a: "a < length files"
  shows "Node.Title (h1 ! a) = file_title (files ! a)"
proof -
  from linked_facts(5)[OF r l a]
  have "Node.Title (node_info (h1 ! a)) = Node.Title (newNode (files ! a))" by simp
  then show ?thesis by (simp add: newNode_def file_title_def)
qed

lemma childrenOf_files:
  assumes r: "registerNodes files ([], Map.empty) = (h0, nodes)"
    and d: "distinct (map StandardsFile.Path files)"
    and a: "a < length files"
  shows "map (\<lambda>c. files ! c) (childrenOf nodes files a)
       = filter (\<lambda>c. StandardsHeader.Parent (Header c) = Some (StandardsFile.Path (files ! a))) files"
proof -
  let ?Q = "\<lambda>f. case StandardsHeader.Parent (Header f) of None \<Rightarrow> False | Some pp \<Rightarrow> nodes pp = Some a"
  have "map (\<lambda>c. files ! c) (childrenOf nodes files a)
      = map (\<lambda>f. files ! the (nodes (StandardsFile.Path f))) (filter ?Q files)"
    by (simp add: childrenOf_def comp_def)
  also have "\<dots> = filter ?Q files"
    by (rule map_idI) (simp add: lookup_distinct[OF r d])
  also have "\<dots> = filter (\<lambda>c. StandardsHeader.Parent (Header c) = Some (StandardsFile.Path (files ! a))) files"
  proof (rule filter_cong[OF refl])
    fix f assume "f \<in> set files"
    show "?Q f = (StandardsHeader.Parent (Header f) = Some (StandardsFile.Path (files ! a)))"
    proof (cases "StandardsHeader.Parent (Header f)")
      case None
      then show ?thesis by simp
    next
      case (Some pp)
      have "nodes pp = Some a \<longleftrightarrow> pp = StandardsFile.Path (files ! a)"
        using registerNodes_Some(2)[OF r, of pp a] registerNodes_distinct[OF r d a] by auto
      with Some show ?thesis by simp
    qed
  qed
  finally show ?thesis .
qed

lemma rootsOf_files:
  assumes r: "registerNodes files ([], Map.empty) = (h0, nodes)"
    and d: "distinct (map StandardsFile.Path files)"
  shows "map (\<lambda>c. files ! c) (rootsOf nodes files)
       = filter (\<lambda>c. StandardsHeader.Parent (Header c) = None) files"
proof -
  have "map (\<lambda>c. files ! c) (rootsOf nodes files)
      = map (\<lambda>f. files ! the (nodes (StandardsFile.Path f)))
          (filter (\<lambda>c. StandardsHeader.Parent (Header c) = None) files)"
    by (simp add: rootsOf_def comp_def)
  also have "\<dots> = filter (\<lambda>c. StandardsHeader.Parent (Header c) = None) files"
    by (rule map_idI) (simp add: lookup_distinct[OF r d])
  finally show ?thesis .
qed

text \<open>
  A sequence of pointers that is sorted by title and holds the pointers the second loop
  appended, in any order, points to the records in the specification's order.
\<close>

lemma sorted_pointers_files:
  assumes titles: "\<And>c. c \<in> set xs \<Longrightarrow> Node.Title (h ! c) = file_title (files ! c)"
    and sorted: "sorted_by_title h xs"
    and perm: "mset xs = mset ys"
    and recs: "map (\<lambda>c. files ! c) ys = filter (\<lambda>c. StandardsHeader.Parent (Header c) = p) files"
    and sib: "sibling_titles_distinct files" and d: "distinct files"
  shows "map (\<lambda>c. files ! c) xs
       = sort_key file_title (filter (\<lambda>c. StandardsHeader.Parent (Header c) = p) files)"
proof (rule sorted_unique_by_key[symmetric])
  have "map (\<lambda>c. file_title (files ! c)) xs = map (\<lambda>c. Node.Title (h ! c)) xs"
    by (rule map_cong[OF refl]) (simp add: titles)
  then have "map file_title (map (\<lambda>c. files ! c) xs) = map (\<lambda>c. Node.Title (h ! c)) xs"
    by (simp only: map_map comp_def)
  with sorted show "sorted (map file_title (map (\<lambda>c. files ! c) xs))"
    by (simp only: sorted_by_title_def)
  have "mset (map (\<lambda>c. files ! c) xs) = mset (map (\<lambda>c. files ! c) ys)"
    using perm by simp
  with recs show "mset (map (\<lambda>c. files ! c) xs)
      = mset (filter (\<lambda>c. StandardsHeader.Parent (Header c) = p) files)"
    by simp
  show "distinct (map file_title (filter (\<lambda>c. StandardsHeader.Parent (Header c) = p) files))"
    by (rule siblings_distinct_titles[OF sib d])
qed

lemma reify_canon:
  assumes node: "\<And>a. a \<in> R \<Longrightarrow> node_info (h ! a) = newNode (files ! a)"
    and kids: "\<And>a. a \<in> R \<Longrightarrow> map (\<lambda>c. files ! c) (Children (h ! a))
        = sort_key file_title
            (filter (\<lambda>c. StandardsHeader.Parent (Header c) = Some (StandardsFile.Path (files ! a))) files)"
    and closed: "\<And>a c. a \<in> R \<Longrightarrow> c \<in> set (Children (h ! a)) \<Longrightarrow> c \<in> R"
  shows "a \<in> R \<Longrightarrow> reify fuel h a = canonNode fuel files (files ! a)"
proof (induction fuel arbitrary: a)
  case 0
  show ?case by simp
next
  case (Suc fuel)
  have "map (reify fuel h) (Children (h ! a))
      = map (\<lambda>c. canonNode fuel files (files ! c)) (Children (h ! a))"
    by (rule map_cong[OF refl]) (rule Suc.IH[OF closed[OF Suc.prems]])
  also have "\<dots> = map (canonNode fuel files) (map (\<lambda>c. files ! c) (Children (h ! a)))"
    by (simp add: comp_def)
  finally show ?case
    by (simp add: node[OF Suc.prems] kids[OF Suc.prems])
qed

lemma BuildHierarchy_canon:
  assumes spec: "sort_Slice_spec srt"
    and d: "distinct (map StandardsFile.Path files)"
    and sib: "sibling_titles_distinct files"
    and b: "BuildHierarchy srt fuel files = Some (t, h, w)"
  shows "reifyAll g h (Nodes t) = canonForest g files"
proof -
  from b obtain h0 nodes h1 roots where
    r: "registerNodes files ([], Map.empty) = (h0, nodes)"
    and l: "linkNodes nodes files (h0, [], []) = (h1, roots, w)"
    and s: "sortChildren srt fuel h1 roots = Some (h, Nodes t)"
    by (rule BuildHierarchy_Some)
  from sort_frame(1)[OF spec s]
  have sh: "same_shape h1 h"
    and n: "Nodes t = srt (\<lambda>i j. Node.Title (h1 ! i) < Node.Title (h1 ! j)) roots"
    by simp_all
  have mr: "mset (Nodes t) = mset roots" unfolding n by (rule srt_mset[OF spec])
  have len: "length h = length files"
    using same_shape_length[OF sh] linked_facts(1)[OF r l] by simp
  have closed: "closed_heap h" by (rule same_shape_closed[OF sh linked_closed(1)[OF r l]])
  have valid: "\<forall>a\<in>set (Nodes t). a < length h"
    using linked_closed(2)[OF r l] mset_eq_setD[OF mr] same_shape_length[OF sh] by simp
  have df: "distinct files" by (rule distinct_paths_files[OF d])
  let ?R = "reach h (set (Nodes t))"
  have rv: "a < length files" if "a \<in> ?R" for a
    using reach_valid[OF closed valid that] len by simp
  have title: "Node.Title (h ! a) = file_title (files ! a)" if "a < length files" for a
    using linked_title[OF r l that] same_shape_title[OF sh, of a] by simp
  have node: "node_info (h ! a) = newNode (files ! a)" if "a \<in> ?R" for a
    using linked_facts(5)[OF r l rv[OF that]] same_shape_info[OF sh, of a] by simp
  have kids_in: "c \<in> ?R" if "a \<in> ?R" "c \<in> set (Children (h ! a))" for a c
    using that by (rule reach.child)
  have kids: "map (\<lambda>c. files ! c) (Children (h ! a))
        = sort_key file_title
            (filter (\<lambda>c. StandardsHeader.Parent (Header c) = Some (StandardsFile.Path (files ! a))) files)"
    if a: "a \<in> ?R" for a
  proof (rule sorted_pointers_files[where ys = "childrenOf nodes files a", OF _ _ _ _ sib df])
    show "Node.Title (h ! c) = file_title (files ! c)" if "c \<in> set (Children (h ! a))" for c
      by (rule title[OF rv[OF kids_in[OF a that]]])
    show "sorted_by_title h (Children (h ! a))"
      using BuildHierarchy_sorted(2)[OF spec b] a by simp
    show "mset (Children (h ! a)) = mset (childrenOf nodes files a)"
      using same_shape_mset[OF sh, of a] linked_facts(4)[OF r l rv[OF a]] by simp
    show "map (\<lambda>c. files ! c) (childrenOf nodes files a)
        = filter (\<lambda>c. StandardsHeader.Parent (Header c) = Some (StandardsFile.Path (files ! a))) files"
      by (rule childrenOf_files[OF r d rv[OF a]])
  qed
  have roots: "map (\<lambda>c. files ! c) (Nodes t)
        = sort_key file_title (filter (\<lambda>c. StandardsHeader.Parent (Header c) = None) files)"
  proof (rule sorted_pointers_files[where ys = "rootsOf nodes files", OF _ _ _ _ sib df])
    show "Node.Title (h ! c) = file_title (files ! c)" if "c \<in> set (Nodes t)" for c
      by (rule title[OF rv[OF reach.start[OF that]]])
    show "sorted_by_title h (Nodes t)" by (rule BuildHierarchy_sorted(1)[OF spec b])
    show "mset (Nodes t) = mset (rootsOf nodes files)"
      using mr linked_facts(2)[OF r l] by simp
    show "map (\<lambda>c. files ! c) (rootsOf nodes files)
        = filter (\<lambda>c. StandardsHeader.Parent (Header c) = None) files"
      by (rule rootsOf_files[OF r d])
  qed
  have "map (reify g h) (Nodes t) = map (\<lambda>c. canonNode g files (files ! c)) (Nodes t)"
    by (rule map_cong[OF refl]) (rule reify_canon[of ?R h files, OF node kids kids_in reach.start])
  also have "\<dots> = map (canonNode g files) (map (\<lambda>c. files ! c) (Nodes t))"
    by (simp add: comp_def)
  finally show ?thesis
    by (simp add: reifyAll_def canonForest_def roots)
qed

lemma BuildHierarchy_value_exists:
  assumes spec: "sort_Slice_spec srt"
    and b: "BuildHierarchy srt fuel files = Some (t, h, w)"
  shows "reifyAll fuel h (Nodes t) \<noteq> None"
proof -
  from b obtain h0 nodes h1 roots where
    r: "registerNodes files ([], Map.empty) = (h0, nodes)"
    and l: "linkNodes nodes files (h0, [], []) = (h1, roots, w)"
    and s: "sortChildren srt fuel h1 roots = Some (h, Nodes t)"
    by (rule BuildHierarchy_Some)
  from sort_frame(1)[OF spec s]
  have sh: "same_shape h1 h"
    and n: "Nodes t = srt (\<lambda>i j. Node.Title (h1 ! i) < Node.Title (h1 ! j)) roots"
    by simp_all
  have sr: "set (Nodes t) = set roots" unfolding n by (rule srt_set[OF spec])
  from sort_returns_depth(1)[OF spec s]
  have "\<forall>a\<in>set roots. depth_below (fuel - 1) h1 a" by simp
  then have "depth_below fuel h a" if "a \<in> set (Nodes t)" for a
    using that sr same_shape_depth_below[OF sh, of "fuel - 1" a]
      depth_below_mono[of "fuel - 1" h a fuel] by simp
  then have "\<forall>a\<in>set (Nodes t). reify fuel h a \<noteq> None"
    using depth_below_reify by blast
  then show ?thesis unfolding reifyAll_def by (rule those_map_Some)
qed

section \<open>Evaluation of the serializer and of the examples\<close>



lemma BuildHierarchy_test_files:
  "BuildHierarchy insertionSortLessFunc 4 test_files = Some (test_tree, test_heap, [])"
  by code_simp

lemma BuildHierarchy_scenario_files:
  "BuildHierarchy insertionSortLessFunc 3 scenario_files =
     Some (\<lparr>Nodes = [0, 2]\<rparr>,
           [(newNode (scenario_files ! 0))\<lparr>Children := [1]\<rparr>,
            newNode (scenario_files ! 1),
            (newNode (scenario_files ! 2))\<lparr>Children := [3]\<rparr>,
            newNode (scenario_files ! 3),
            newNode (scenario_files ! 4)],
           [(''E'', ''missing-path'')])"
  by code_simp

section \<open>Main results on the hierarchy construction\<close>

lemma reach_empty: "reach h {} = {}"
proof -
  have "x \<notin> reach h {}" for x
  proof
    assume "x \<in> reach h {}"
    then show False by (induction rule: reach.induct) auto
  qed
  then show ?thesis by auto
qed

lemma rootsOf_distinct:
  assumes r: "registerNodes files ([], Map.empty) = (h0, nodes)"
    and d: "distinct (map StandardsFile.Path files)"
  shows "distinct (rootsOf nodes files)"
proof -
  have "distinct (map (\<lambda>c. files ! c) (rootsOf nodes files))"
    unfolding rootsOf_files[OF r d] using distinct_paths_files[OF d] by simp
  then show ?thesis by (simp add: distinct_map)
qed

lemma BuildHierarchy_roots_distinct:
  assumes spec: "sort_Slice_spec srt"
    and d: "distinct (map StandardsFile.Path files)"
    and b: "BuildHierarchy srt fuel files = Some (t, h, w)"
  shows "distinct (Nodes t)"
proof -
  from b obtain h0 nodes h1 roots where
    r: "registerNodes files ([], Map.empty) = (h0, nodes)"
    and l: "linkNodes nodes files (h0, [], []) = (h1, roots, w)"
    and s: "sortChildren srt fuel h1 roots = Some (h, Nodes t)"
    by (rule BuildHierarchy_Some)
  from sort_frame(1)[OF spec s]
  have n: "Nodes t = srt (\<lambda>i j. Node.Title (h1 ! i) < Node.Title (h1 ! j)) roots"
    by simp
  have "mset (Nodes t) = mset roots" unfolding n by (rule srt_mset[OF spec])
  from mset_eq_imp_distinct_iff[OF this] rootsOf_distinct[OF r d] linked_facts(2)[OF r l]
  show ?thesis by simp
qed

text \<open>
  C1 (as stated, false). Two records share the path \<open>P\<close>; the second declares the parent
  \<open>missing\<close>, which is the path of no record. Its node, the one the lookup keeps for \<open>P\<close>,
  is the root of the returned tree: the first record, which has no parent, appends it.
\<close>

theorem BuildHierarchy_orphan_kept_counterexample:
  "StandardsHeader.Parent (Header (record_of ''P'' ''Second'' (Some ''missing''))) = Some ''missing''
   \<and> ''missing'' \<notin> StandardsFile.Path `
        set [record_of ''P'' ''First'' None, record_of ''P'' ''Second'' (Some ''missing'')]
   \<and> BuildHierarchy insertionSortLessFunc 2
        [record_of ''P'' ''First'' None, record_of ''P'' ''Second'' (Some ''missing'')]
      = Some (\<lparr>Nodes = [1]\<rparr>,
              [newNode (record_of ''P'' ''First'' None),
               newNode (record_of ''P'' ''Second'' (Some ''missing''))],
              [(''P'', ''missing'')])"
  by code_simp

text \<open>
  C1 (amended). When the paths of the records are pairwise distinct, BuildHierarchy
  returns, and a record whose parent is the path of no record is pruned: no node reachable
  from the roots and no child of any node has its path, and a warning with its path and
  its parent was logged.
\<close>

theorem BuildHierarchy_prunes_orphan:
  assumes "sort_Slice_spec srt"
    and "distinct (map StandardsFile.Path files)"
    and "r \<in> set files"
    and "StandardsHeader.Parent (Header r) = Some pp"
    and "pp \<notin> StandardsFile.Path ` set files"
  shows "(\<exists>res. BuildHierarchy srt (Suc (length files)) files = Some res) \<and>
         (\<forall>fuel t h w. BuildHierarchy srt fuel files = Some (t, h, w) \<longrightarrow>
            (\<forall>a\<in>reach h (set (Nodes t)). Node.Path (h ! a) \<noteq> StandardsFile.Path r) \<and>
            (\<forall>b<length h. \<forall>c\<in>set (Children (h ! b)). Node.Path (h ! c) \<noteq> StandardsFile.Path r) \<and>
            (StandardsFile.Path r, pp) \<in> set w)"
proof -
  have returns: "\<exists>res. BuildHierarchy srt (Suc (length files)) files = Some res"
    by (rule BuildHierarchy_returns[OF assms(1,2)]) simp
  have pruned: "(\<forall>a\<in>reach h (set (Nodes t)). Node.Path (h ! a) \<noteq> StandardsFile.Path r) \<and>
      (\<forall>b<length h. \<forall>c\<in>set (Children (h ! b)). Node.Path (h ! c) \<noteq> StandardsFile.Path r) \<and>
      (StandardsFile.Path r, pp) \<in> set w"
    if b: "BuildHierarchy srt fuel files = Some (t, h, w)" for fuel t h w
    using BuildHierarchy_orphan_facts[OF assms b] by blast
  from returns pruned show ?thesis by blast
qed

theorem BuildHierarchy_prunes_orphan_witness:
  "sort_Slice_spec insertionSortLessFunc
   \<and> distinct (map StandardsFile.Path scenario_files)
   \<and> record_of ''E'' ''Epsilon'' (Some ''missing-path'') \<in> set scenario_files
   \<and> StandardsHeader.Parent (Header (record_of ''E'' ''Epsilon'' (Some ''missing-path'')))
        = Some ''missing-path''
   \<and> ''missing-path'' \<notin> StandardsFile.Path ` set scenario_files
   \<and> (\<exists>res. BuildHierarchy insertionSortLessFunc (Suc (length scenario_files)) scenario_files
               = Some res)
   \<and> BuildHierarchy insertionSortLessFunc 3 scenario_files
        = Some (\<lparr>Nodes = [0, 2]\<rparr>,
                [(newNode (scenario_files ! 0))\<lparr>Children := [1]\<rparr>,
                 newNode (scenario_files ! 1),
                 (newNode (scenario_files ! 2))\<lparr>Children := [3]\<rparr>,
                 newNode (scenario_files ! 3),
                 newNode (scenario_files ! 4)],
                [(''E'', ''missing-path'')])"
proof -
  have d: "distinct (map StandardsFile.Path scenario_files)" by code_simp
  have rin: "record_of ''E'' ''Epsilon'' (Some ''missing-path'') \<in> set scenario_files"
    by (simp add: scenario_files_def)
  have rp: "StandardsHeader.Parent (Header (record_of ''E'' ''Epsilon'' (Some ''missing-path'')))
        = Some ''missing-path''"
    by (simp add: record_of_def)
  have pp: "''missing-path'' \<notin> StandardsFile.Path ` set scenario_files"
    by (simp add: scenario_files_def record_of_def)
  from BuildHierarchy_prunes_orphan[OF insertionSortLessFunc_spec d rin rp pp]
  have "\<exists>res. BuildHierarchy insertionSortLessFunc (Suc (length scenario_files)) scenario_files
               = Some res"
    by blast
  with insertionSortLessFunc_spec d rin rp pp BuildHierarchy_scenario_files
  show ?thesis by blast
qed

text \<open>
  C2. In the tree that BuildHierarchy returns the roots are in ascending order of title,
  and so are the children of every node reachable from the roots; the roots and the
  children of every node are the pointers that the linking loop appended, rearranged.
  When the paths of the records are pairwise distinct BuildHierarchy does return such a
  tree.
\<close>

theorem BuildHierarchy_siblings_sorted:
  assumes spec: "sort_Slice_spec srt"
  shows "(\<forall>fuel t h w. BuildHierarchy srt fuel files = Some (t, h, w) \<longrightarrow>
            sorted_by_title h (Nodes t) \<and>
            (\<forall>a\<in>reach h (set (Nodes t)). sorted_by_title h (Children (h ! a))) \<and>
            (\<exists>h0 nodes h1 roots.
               registerNodes files ([], Map.empty) = (h0, nodes) \<and>
               linkNodes nodes files (h0, [], []) = (h1, roots, w) \<and>
               mset (Nodes t) = mset roots \<and>
               (\<forall>b. mset (Children (h ! b)) = mset (Children (h1 ! b))))) \<and>
         (distinct (map StandardsFile.Path files) \<longrightarrow>
            (\<exists>t h w. BuildHierarchy srt (Suc (length files)) files = Some (t, h, w) \<and>
               sorted_by_title h (Nodes t) \<and>
               (\<forall>a\<in>reach h (set (Nodes t)). sorted_by_title h (Children (h ! a)))))"
proof -
  have sorted: "sorted_by_title h (Nodes t) \<and>
      (\<forall>a\<in>reach h (set (Nodes t)). sorted_by_title h (Children (h ! a)))"
    if b: "BuildHierarchy srt fuel files = Some (t, h, w)" for fuel t h w
    using BuildHierarchy_sorted[OF spec b] by blast
  have rearranged: "\<exists>h0 nodes h1 roots.
      registerNodes files ([], Map.empty) = (h0, nodes) \<and>
      linkNodes nodes files (h0, [], []) = (h1, roots, w) \<and>
      mset (Nodes t) = mset roots \<and>
      (\<forall>b. mset (Children (h ! b)) = mset (Children (h1 ! b)))"
    if b: "BuildHierarchy srt fuel files = Some (t, h, w)" for fuel t h w
  proof -
    from b obtain h0 nodes h1 roots where
      r: "registerNodes files ([], Map.empty) = (h0, nodes)"
      and l: "linkNodes nodes files (h0, [], []) = (h1, roots, w)"
      and s: "sortChildren srt fuel h1 roots = Some (h, Nodes t)"
      by (rule BuildHierarchy_Some)
    from sort_frame(1)[OF spec s]
    have sh: "same_shape h1 h"
      and n: "Nodes t = srt (\<lambda>i j. Node.Title (h1 ! i) < Node.Title (h1 ! j)) roots"
      by simp_all
    have "mset (Nodes t) = mset roots" unfolding n by (rule srt_mset[OF spec])
    moreover have "\<forall>b. mset (Children (h ! b)) = mset (Children (h1 ! b))"
      using same_shape_mset[OF sh] by blast
    ultimately show ?thesis using r l by blast
  qed
  have returns: "\<exists>t h w. BuildHierarchy srt (Suc (length files)) files = Some (t, h, w) \<and>
      sorted_by_title h (Nodes t) \<and>
      (\<forall>a\<in>reach h (set (Nodes t)). sorted_by_title h (Children (h ! a)))"
    if d: "distinct (map StandardsFile.Path files)"
  proof -
    have "length files < Suc (length files)" by simp
    from BuildHierarchy_returns[OF spec d this] obtain t h w where
      b: "BuildHierarchy srt (Suc (length files)) files = Some (t, h, w)"
      by (metis prod_cases3)
    with sorted[OF b] show ?thesis by blast
  qed
  from sorted rearranged returns show ?thesis by blast
qed

text \<open>
  On \<open>reorder_files\<close> the linking loop leaves the roots \<open>[0, 3]\<close> and the children \<open>[1, 2]\<close>
  of node 0; the returned tree has the roots \<open>[3, 0]\<close> and the children \<open>[2, 1]\<close>.
\<close>

theorem BuildHierarchy_siblings_sorted_witness:
  "sort_Slice_spec insertionSortLessFunc
   \<and> distinct (map StandardsFile.Path reorder_files)
   \<and> (case registerNodes reorder_files ([], Map.empty) of
        (h0, nodes) \<Rightarrow> linkNodes nodes reorder_files (h0, [], []))
      = ([(newNode (reorder_files ! 0))\<lparr>Children := [1, 2]\<rparr>,
          newNode (reorder_files ! 1),
          newNode (reorder_files ! 2),
          newNode (reorder_files ! 3)], [0, 3], [])
   \<and> BuildHierarchy insertionSortLessFunc 3 reorder_files
      = Some (\<lparr>Nodes = [3, 0]\<rparr>,
              [(newNode (reorder_files ! 0))\<lparr>Children := [2, 1]\<rparr>,
               newNode (reorder_files ! 1),
               newNode (reorder_files ! 2),
               newNode (reorder_files ! 3)], [])
   \<and> sorted_by_title
        [(newNode (reorder_files ! 0))\<lparr>Children := [2, 1]\<rparr>,
         newNode (reorder_files ! 1),
         newNode (reorder_files ! 2),
         newNode (reorder_files ! 3)] [3, 0]
   \<and> sorted_by_title
        [(newNode (reorder_files ! 0))\<lparr>Children := [2, 1]\<rparr>,
         newNode (reorder_files ! 1),
         newNode (reorder_files ! 2),
         newNode (reorder_files ! 3)] [2, 1]
   \<and> \<not> sorted_by_title
        [(newNode (reorder_files ! 0))\<lparr>Children := [2, 1]\<rparr>,
         newNode (reorder_files ! 1),
         newNode (reorder_files ! 2),
         newNode (reorder_files ! 3)] [1, 2]
   \<and> (\<exists>t h w. BuildHierarchy insertionSortLessFunc (Suc (length reorder_files)) reorder_files
                  = Some (t, h, w) \<and>
                sorted_by_title h (Nodes t) \<and>
                (\<forall>a\<in>reach h (set (Nodes t)). sorted_by_title h (Children (h ! a))))"
proof -
  let ?h = "[(newNode (reorder_files ! 0))\<lparr>Children := [2, 1]\<rparr>,
             newNode (reorder_files ! 1),
             newNode (reorder_files ! 2),
             newNode (reorder_files ! 3)]"
  have d: "distinct (map StandardsFile.Path reorder_files)" by code_simp
  have linked: "(case registerNodes reorder_files ([], Map.empty) of
        (h0, nodes) \<Rightarrow> linkNodes nodes reorder_files (h0, [], []))
      = ([(newNode (reorder_files ! 0))\<lparr>Children := [1, 2]\<rparr>,
          newNode (reorder_files ! 1),
          newNode (reorder_files ! 2),
          newNode (reorder_files ! 3)], [0, 3], [])"
    by code_simp
  have b: "BuildHierarchy insertionSortLessFunc 3 reorder_files = Some (\<lparr>Nodes = [3, 0]\<rparr>, ?h, [])"
    by code_simp
  have unsorted: "\<not> sorted_by_title ?h [1, 2]" by code_simp
  note inst = BuildHierarchy_siblings_sorted[OF insertionSortLessFunc_spec, of reorder_files]
  from inst b have roots: "sorted_by_title ?h (Nodes \<lparr>Nodes = [3, 0]\<rparr>)"
    and kids: "\<forall>a\<in>reach ?h (set (Nodes \<lparr>Nodes = [3, 0]\<rparr>)). sorted_by_title ?h (Children (?h ! a))"
    by blast+
  have "0 \<in> reach ?h (set (Nodes \<lparr>Nodes = [3, 0]\<rparr>))"
    by (rule reach.start) simp
  with kids have "sorted_by_title ?h (Children (?h ! 0))" by blast
  then have k: "sorted_by_title ?h [2, 1]" by simp
  from roots have r: "sorted_by_title ?h [3, 0]" by simp
  from inst d
  have ex: "\<exists>t h w. BuildHierarchy insertionSortLessFunc (Suc (length reorder_files)) reorder_files
                  = Some (t, h, w) \<and>
                sorted_by_title h (Nodes t) \<and>
                (\<forall>a\<in>reach h (set (Nodes t)). sorted_by_title h (Children (h ! a)))"
    by blast
  from insertionSortLessFunc_spec d linked b r k unsorted ex show ?thesis by blast
qed

text \<open>
  C3 (as stated, false). A record that names its own path as parent: the second loop
  appends its node to the node's own children. The node is among its own descendants; it
  is not a root, so the returned tree does not reach it.
\<close>

theorem BuildHierarchy_self_parent_counterexample:
  "BuildHierarchy insertionSortLessFunc 1 [record_of ''A'' ''Alpha'' (Some ''A'')]
     = Some (\<lparr>Nodes = []\<rparr>, [(newNode (record_of ''A'' ''Alpha'' (Some ''A'')))\<lparr>Children := [0]\<rparr>], [])
   \<and> 0 \<in> set (Children ([(newNode (record_of ''A'' ''Alpha'' (Some ''A'')))\<lparr>Children := [0]\<rparr>] ! 0))
   \<and> 0 \<in> descendants [(newNode (record_of ''A'' ''Alpha'' (Some ''A'')))\<lparr>Children := [0]\<rparr>] 0"
proof -
  have "BuildHierarchy insertionSortLessFunc 1 [record_of ''A'' ''Alpha'' (Some ''A'')]
     = Some (\<lparr>Nodes = []\<rparr>, [(newNode (record_of ''A'' ''Alpha'' (Some ''A'')))\<lparr>Children := [0]\<rparr>], [])"
    by code_simp
  moreover have "0 \<in> descendants [(newNode (record_of ''A'' ''Alpha'' (Some ''A'')))\<lparr>Children := [0]\<rparr>] 0"
    unfolding descendants_def by (rule reach.start) simp
  ultimately show ?thesis by simp
qed

text \<open>
  C3 (amended). Whenever BuildHierarchy returns, no node that the returned roots reach
  is among its own descendants; and it returns when the paths are pairwise distinct.
\<close>

theorem BuildHierarchy_reachable_acyclic:
  assumes "sort_Slice_spec srt"
  shows "(\<forall>fuel t h w a. BuildHierarchy srt fuel files = Some (t, h, w) \<longrightarrow>
            a \<in> reach h (set (Nodes t)) \<longrightarrow> a \<notin> descendants h a) \<and>
         (distinct (map StandardsFile.Path files) \<longrightarrow>
            (\<exists>res. BuildHierarchy srt (Suc (length files)) files = Some res))"
proof (intro conjI allI impI)
  fix fuel t h w a
  assume "BuildHierarchy srt fuel files = Some (t, h, w)" and "a \<in> reach h (set (Nodes t))"
  with assms show "a \<notin> descendants h a" by (rule BuildHierarchy_acyclic)
next
  assume "distinct (map StandardsFile.Path files)"
  with assms show "\<exists>res. BuildHierarchy srt (Suc (length files)) files = Some res"
    by (rule BuildHierarchy_returns) simp
qed

theorem BuildHierarchy_reachable_acyclic_witness:
  "sort_Slice_spec insertionSortLessFunc
   \<and> distinct (map StandardsFile.Path test_files)
   \<and> BuildHierarchy insertionSortLessFunc 4 test_files = Some (test_tree, test_heap, [])
   \<and> 3 \<in> reach test_heap (set (Nodes test_tree))
   \<and> 3 \<notin> descendants test_heap 3
   \<and> (\<exists>res. BuildHierarchy insertionSortLessFunc (Suc (length test_files)) test_files = Some res)"
proof -
  have d: "distinct (map StandardsFile.Path test_files)" by code_simp
  have r: "3 \<in> reach test_heap (set (Nodes test_tree))"
    by (rule reach.start) (simp add: test_tree_def)
  from BuildHierarchy_reachable_acyclic[OF insertionSortLessFunc_spec, of test_files]
    BuildHierarchy_test_files r d
  have "3 \<notin> descendants test_heap 3"
    and "\<exists>res. BuildHierarchy insertionSortLessFunc (Suc (length test_files)) test_files = Some res"
    by blast+
  with insertionSortLessFunc_spec d r BuildHierarchy_test_files show ?thesis by blast
qed

text \<open>
  C6 (as stated, false). Two records without parent and with the same title, given in
  the two possible orders: the sort leaves each input order as it is (no title is less
  than the other), so the two trees list the roots in different orders.
\<close>

theorem BuildForest_order_counterexample:
  "mset [record_of ''B'' ''Same'' None, record_of ''A'' ''Same'' None]
     = mset [record_of ''A'' ''Same'' None, record_of ''B'' ''Same'' None]
   \<and> BuildForest insertionSortLessFunc 2 [record_of ''A'' ''Same'' None, record_of ''B'' ''Same'' None]
     = Some [VNode (newNode (record_of ''A'' ''Same'' None)) [],
             VNode (newNode (record_of ''B'' ''Same'' None)) []]
   \<and> BuildForest insertionSortLessFunc 2 [record_of ''B'' ''Same'' None, record_of ''A'' ''Same'' None]
     = Some [VNode (newNode (record_of ''B'' ''Same'' None)) [],
             VNode (newNode (record_of ''A'' ''Same'' None)) []]
   \<and> BuildForest insertionSortLessFunc 2 [record_of ''A'' ''Same'' None, record_of ''B'' ''Same'' None]
     \<noteq> BuildForest insertionSortLessFunc 2 [record_of ''B'' ''Same'' None, record_of ''A'' ''Same'' None]"
proof -
  have ab: "BuildForest insertionSortLessFunc 2 [record_of ''A'' ''Same'' None, record_of ''B'' ''Same'' None]
     = Some [VNode (newNode (record_of ''A'' ''Same'' None)) [],
             VNode (newNode (record_of ''B'' ''Same'' None)) []]"
    by code_simp
  have ba: "BuildForest insertionSortLessFunc 2 [record_of ''B'' ''Same'' None, record_of ''A'' ''Same'' None]
     = Some [VNode (newNode (record_of ''B'' ''Same'' None)) [],
             VNode (newNode (record_of ''A'' ''Same'' None)) []]"
    by code_simp
  have ne: "newNode (record_of ''A'' ''Same'' None) \<noteq> newNode (record_of ''B'' ''Same'' None)"
    by (simp add: newNode_def record_of_def)
  have m: "mset [record_of ''B'' ''Same'' None, record_of ''A'' ''Same'' None]
     = mset [record_of ''A'' ''Same'' None, record_of ''B'' ''Same'' None]"
    by simp
  from ab ba ne m show ?thesis by simp
qed

text \<open>
  C6 (amended). When the paths of the records are pairwise distinct and no two records
  with the same parent reference have the same title, BuildHierarchy returns the same
  tree of values for the records given in any other order.
\<close>

theorem BuildForest_permutation_invariant:
  assumes spec: "sort_Slice_spec srt"
    and d: "distinct (map StandardsFile.Path files)"
    and sib: "sibling_titles_distinct files"
    and perm: "mset files' = mset files"
    and fuel: "length files < fuel"
  shows "\<exists>forest. BuildForest srt fuel files = Some forest \<and> BuildForest srt fuel files' = Some forest"
proof -
  have df: "distinct files" by (rule distinct_paths_files[OF d])
  have "mset (map StandardsFile.Path files') = mset (map StandardsFile.Path files)"
    using perm by simp
  from mset_eq_imp_distinct_iff[OF this] d have d': "distinct (map StandardsFile.Path files')"
    by simp
  have sib': "sibling_titles_distinct files'"
    using sib mset_eq_setD[OF perm] by (simp add: sibling_titles_distinct_def)
  have len: "length files' = length files" using mset_eq_length[OF perm] .
  from BuildHierarchy_returns[OF spec d fuel] obtain t h w where
    b: "BuildHierarchy srt fuel files = Some (t, h, w)" by (metis prod_cases3)
  from BuildHierarchy_returns[OF spec d'] fuel len obtain t' h' w' where
    b': "BuildHierarchy srt fuel files' = Some (t', h', w')" by (metis prod_cases3)
  have "reifyAll fuel h' (Nodes t') = canonForest fuel files'"
    by (rule BuildHierarchy_canon[OF spec d' sib' b'])
  also have "\<dots> = canonForest fuel files"
    by (rule canonForest_perm[OF perm sib df])
  also have "\<dots> = reifyAll fuel h (Nodes t)"
    by (rule BuildHierarchy_canon[OF spec d sib b, symmetric])
  finally have eq: "reifyAll fuel h' (Nodes t') = reifyAll fuel h (Nodes t)" .
  from BuildHierarchy_value_exists[OF spec b] obtain forest where
    f: "reifyAll fuel h (Nodes t) = Some forest" by auto
  with eq b b' show ?thesis by (simp add: BuildForest_def)
qed

theorem BuildForest_permutation_invariant_witness:
  "sort_Slice_spec insertionSortLessFunc
   \<and> distinct (map StandardsFile.Path test_files)
   \<and> sibling_titles_distinct test_files
   \<and> mset (rev test_files) = mset test_files
   \<and> length test_files < 6
   \<and> (\<exists>forest. BuildForest insertionSortLessFunc 6 test_files = Some forest \<and>
                BuildForest insertionSortLessFunc 6 (rev test_files) = Some forest)"
proof -
  have d: "distinct (map StandardsFile.Path test_files)" by code_simp
  have s: "sibling_titles_distinct test_files" by code_simp
  have m: "mset (rev test_files) = mset test_files" by simp
  have l: "length test_files < 6" by (simp add: test_files_def)
  from BuildForest_permutation_invariant[OF insertionSortLessFunc_spec d s m l]
    insertionSortLessFunc_spec d s m l
  show ?thesis by blast
qed


text \<open>
  C9. Two records with the same path and without parent: the lookup keeps the node of
  the second record (address 1) for the path, and each of the two records appends that
  node to the roots, which therefore hold it twice. With pairwise distinct paths no
  node is twice among the roots.
\<close>

theorem BuildHierarchy_duplicate_path_root_twice:
  assumes "sort_Slice_spec srt"
    and "StandardsFile.Path r1 = StandardsFile.Path r2"
    and "StandardsHeader.Parent (Header r1) = None"
    and "StandardsHeader.Parent (Header r2) = None"
  shows "BuildHierarchy srt (Suc (Suc fuel)) [r1, r2]
           = Some (\<lparr>Nodes = [1, 1]\<rparr>, [newNode r1, newNode r2], []) \<and>
         (\<forall>files fuel' t h w.
            distinct (map StandardsFile.Path files) \<longrightarrow>
            BuildHierarchy srt fuel' files = Some (t, h, w) \<longrightarrow> distinct (Nodes t))"
  using BuildHierarchy_same_path_roots[OF assms] BuildHierarchy_roots_distinct[OF assms(1)]
  by blast

theorem BuildHierarchy_duplicate_path_root_twice_witness:
  "sort_Slice_spec insertionSortLessFunc
   \<and> StandardsFile.Path (record_of ''P'' ''First'' None) = StandardsFile.Path (record_of ''P'' ''Second'' None)
   \<and> StandardsHeader.Parent (Header (record_of ''P'' ''First'' None)) = None
   \<and> StandardsHeader.Parent (Header (record_of ''P'' ''Second'' None)) = None
   \<and> BuildHierarchy insertionSortLessFunc (Suc (Suc 0))
        [record_of ''P'' ''First'' None, record_of ''P'' ''Second'' None]
      = Some (\<lparr>Nodes = [1, 1]\<rparr>,
              [newNode (record_of ''P'' ''First'' None), newNode (record_of ''P'' ''Second'' None)], [])
   \<and> Node.Title ([newNode (record_of ''P'' ''First'' None), newNode (record_of ''P'' ''Second'' None)] ! 1)
      = ''Second''"
proof -
  have p: "StandardsFile.Path (record_of ''P'' ''First'' None) = StandardsFile.Path (record_of ''P'' ''Second'' None)"
    and p1: "StandardsHeader.Parent (Header (record_of ''P'' ''First'' None)) = None"
    and p2: "StandardsHeader.Parent (Header (record_of ''P'' ''Second'' None)) = None"
    by (simp_all add: record_of_def)
  from BuildHierarchy_duplicate_path_root_twice[OF insertionSortLessFunc_spec p p1 p2, of 0]
  have "BuildHierarchy insertionSortLessFunc (Suc (Suc 0))
        [record_of ''P'' ''First'' None, record_of ''P'' ''Second'' None]
      = Some (\<lparr>Nodes = [1, 1]\<rparr>,
              [newNode (record_of ''P'' ''First'' None), newNode (record_of ''P'' ''Second'' None)], [])"
    by blast
  moreover have "Node.Title ([newNode (record_of ''P'' ''First'' None), newNode (record_of ''P'' ''Second'' None)] ! 1)
      = ''Second''"
    by (simp add: newNode_def record_of_def)
  ultimately show ?thesis using insertionSortLessFunc_spec p p1 p2 by blast
qed

text \<open>
  C10. Two records with different paths, each naming the other's path as parent: each
  node is appended to the children of the other, the roots stay empty, so the returned
  tree reaches neither node, and no warning is logged.
\<close>

theorem BuildHierarchy_mutual_parents_unreachable:
  assumes spec: "sort_Slice_spec srt"
    and ne: "StandardsFile.Path a \<noteq> StandardsFile.Path b"
    and pa: "StandardsHeader.Parent (Header a) = Some (StandardsFile.Path b)"
    and pb: "StandardsHeader.Parent (Header b) = Some (StandardsFile.Path a)"
  shows "BuildHierarchy srt (Suc fuel) [a, b]
           = Some (\<lparr>Nodes = []\<rparr>,
                   [(newNode a)\<lparr>Children := [1]\<rparr>, (newNode b)\<lparr>Children := [0]\<rparr>], []) \<and>
         reach [(newNode a)\<lparr>Children := [1]\<rparr>, (newNode b)\<lparr>Children := [0]\<rparr>]
               (set (Nodes \<lparr>Nodes = []\<rparr>)) = {}"
proof -
  let ?nodes = "[StandardsFile.Path a \<mapsto> (0::nat), StandardsFile.Path b \<mapsto> 1]"
  let ?h = "[(newNode a)\<lparr>Children := [1]\<rparr>, (newNode b)\<lparr>Children := [0]\<rparr>]"
  have r: "registerNodes [a, b] ([], Map.empty) = ([newNode a, newNode b], ?nodes)"
    by simp
  have l: "linkNodes ?nodes [a, b] ([newNode a, newNode b], [], []) = (?h, [], [])"
    using ne pa pb by (simp add: newNode_def)
  have "BuildHierarchy srt (Suc fuel) [a, b] = Some (\<lparr>Nodes = []\<rparr>, ?h, [])"
    by (simp only: BuildHierarchy_eq[OF r l] sortChildren_leaf[OF spec] option.case prod.case)
  then show ?thesis by (simp add: reach_empty)
qed

theorem BuildHierarchy_mutual_parents_unreachable_witness:
  "sort_Slice_spec insertionSortLessFunc
   \<and> StandardsFile.Path (record_of ''A'' ''Alpha'' (Some ''B'')) \<noteq> StandardsFile.Path (record_of ''B'' ''Beta'' (Some ''A''))
   \<and> StandardsHeader.Parent (Header (record_of ''A'' ''Alpha'' (Some ''B'')))
       = Some (StandardsFile.Path (record_of ''B'' ''Beta'' (Some ''A'')))
   \<and> StandardsHeader.Parent (Header (record_of ''B'' ''Beta'' (Some ''A'')))
       = Some (StandardsFile.Path (record_of ''A'' ''Alpha'' (Some ''B'')))
   \<and> BuildHierarchy insertionSortLessFunc (Suc 0)
        [record_of ''A'' ''Alpha'' (Some ''B''), record_of ''B'' ''Beta'' (Some ''A'')]
      = Some (\<lparr>Nodes = []\<rparr>,
              [(newNode (record_of ''A'' ''Alpha'' (Some ''B'')))\<lparr>Children := [1]\<rparr>,
               (newNode (record_of ''B'' ''Beta'' (Some ''A'')))\<lparr>Children := [0]\<rparr>], [])"
proof -
  have ne: "StandardsFile.Path (record_of ''A'' ''Alpha'' (Some ''B'')) \<noteq> StandardsFile.Path (record_of ''B'' ''Beta'' (Some ''A''))"
    and pa: "StandardsHeader.Parent (Header (record_of ''A'' ''Alpha'' (Some ''B'')))
       = Some (StandardsFile.Path (record_of ''B'' ''Beta'' (Some ''A'')))"
    and pb: "StandardsHeader.Parent (Header (record_of ''B'' ''Beta'' (Some ''A'')))
       = Some (StandardsFile.Path (record_of ''A'' ''Alpha'' (Some ''B'')))"
    by (simp_all add: record_of_def)
  from BuildHierarchy_mutual_parents_unreachable[OF insertionSortLessFunc_spec ne pa pb, of 0]
    insertionSortLessFunc_spec ne pa pb
  show ?thesis by blast
qed

end
